theory Spec2Isabelle
  imports Complex_Main "HOL-Library.Word"
begin

unbundle bit_operations_syntax

section \<open>Data model\<close>

text \<open>
  Bytes are \<open>uint8_t\<close>, the integers of the record layout are \<open>uint32_t\<close> and
  \<open>uint64_t\<close>. A \<open>const uint8_t*\<close> is modelled by the list of the bytes that start at
  the pointer, so \<open>data + n\<close> is \<open>drop n data\<close> and \<open>data[i]\<close> is \<open>data ! i\<close>; every
  read of the source is guarded by a length check, which the model keeps.
\<close>

type_synonym byte = "8 word"

text \<open>
  \<open>enum class EventType : uint8_t\<close>: the parser casts the byte of the record to the enum
  without a check, so every byte is a value of the type.
\<close>

type_synonym EventType = "8 word"

definition TRADE_CREATED :: EventType where
  "TRADE_CREATED = 1"

definition LEDGER_ENTRIES_GENERATED :: EventType where
  "LEDGER_ENTRIES_GENERATED = 2"

definition POSITION_UPDATED :: EventType where
  "POSITION_UPDATED = 3"

record Event =
  sequence_num :: "64 word"
  timestamp_ns :: "64 word"
  event_type :: EventType
  payload :: "byte list"
  crc32 :: "32 word"

definition totalSize :: "Event \<Rightarrow> nat" where
  "totalSize e = 28 + length (payload e)"

record FileHeader =
  magic :: "32 word"
  version :: "32 word"
  reserved :: "64 word"

definition EXPECTED_MAGIC :: "32 word" where
  "EXPECTED_MAGIC = 0x54524144"

definition EXPECTED_VERSION :: "32 word" where
  "EXPECTED_VERSION = 1"

definition FileHeader_SIZE :: nat where
  "FileHeader_SIZE = 16"

definition isValid :: "FileHeader \<Rightarrow> bool" where
  "isValid h \<longleftrightarrow> magic h = EXPECTED_MAGIC \<and> version h = EXPECTED_VERSION"

text \<open>
  The exceptions of the source. The messages that the source formats from numbers are kept
  as the numbers themselves: \<open>InvalidHeader magic version\<close>, \<open>InsufficientData expected got\<close>
  and \<open>CorruptedEventException calculated stored\<close>. The last constructor is not an
  exception of the source: \<open>out_of_bounds_read\<close> stands for the undefined behaviour of a read
  past the end of the bytes at a pointer, where the model stops.
\<close>

datatype parse_message =
    InsufficientHeader
  | InvalidHeader "32 word" "32 word"
  | InsufficientRecord
  | InsufficientData nat nat

datatype exception =
    ParseException parse_message
  | CorruptedEventException "32 word" "32 word"
  | runtime_error string
  | out_of_bounds_read

section \<open>Record framer (EventParser.cpp)\<close>

definition readUint32LE :: "byte list \<Rightarrow> 32 word" where
  "readUint32LE data =
     ucast (data ! 0) OR push_bit 8 (ucast (data ! 1)) OR
     push_bit 16 (ucast (data ! 2)) OR push_bit 24 (ucast (data ! 3))"

definition readUint64LE :: "byte list \<Rightarrow> 64 word" where
  "readUint64LE data =
     ucast (data ! 0) OR push_bit 8 (ucast (data ! 1)) OR
     push_bit 16 (ucast (data ! 2)) OR push_bit 24 (ucast (data ! 3)) OR
     push_bit 32 (ucast (data ! 4)) OR push_bit 40 (ucast (data ! 5)) OR
     push_bit 48 (ucast (data ! 6)) OR push_bit 56 (ucast (data ! 7))"

text \<open>
  Modelled from the spec: the CRC32 of a byte string, the reflected CRC with polynomial
  \<open>0xEDB88320\<close>, initial value \<open>0xFFFFFFFF\<close> and final xor \<open>0xFFFFFFFF\<close> (\<open>crc32_of\<close>), and
  zlib's function \<open>crc32(uLong crc, const Bytef *buf, uInt len)\<close>, a library outside the
  repository, which continues a running checksum \<open>crc\<close> over the first \<open>len\<close> bytes at
  \<open>buf\<close>. Its \<open>len\<close> is a 32-bit \<open>uInt\<close>, and \<open>crc32(0L, Z_NULL, 0)\<close> is \<open>0\<close>.
\<close>

definition crc_shift :: "32 word \<Rightarrow> 32 word" where
  "crc_shift c = (if bit c 0 then drop_bit 1 c XOR 0xEDB88320 else drop_bit 1 c)"

definition crc_byte :: "byte \<Rightarrow> 32 word \<Rightarrow> 32 word" where
  "crc_byte b c = (crc_shift ^^ 8) (c XOR ucast b)"

definition crc32_of :: "byte list \<Rightarrow> 32 word" where
  "crc32_of bytes = NOT (fold crc_byte bytes (NOT 0))"

definition zlib_crc32 :: "32 word \<Rightarrow> byte list \<Rightarrow> 32 word \<Rightarrow> 32 word" where
  "zlib_crc32 crc buf len = NOT (fold crc_byte (take (unat len) buf) (NOT crc))"

text \<open>
  \<open>calculateCRC32(data, length)\<close> passes its \<open>size_t\<close> length to \<open>crc32\<close>, which converts it to
  \<open>uInt\<close>: the length is reduced modulo \<open>2 ^ 32\<close>.
\<close>

definition calculateCRC32 :: "byte list \<Rightarrow> nat \<Rightarrow> 32 word" where
  "calculateCRC32 data len =
     (let crc = zlib_crc32 0 [] 0
      in zlib_crc32 crc data (of_nat len))"

definition parseFileHeader :: "byte list \<Rightarrow> nat \<Rightarrow> exception + FileHeader" where
  "parseFileHeader data len =
     (if len < FileHeader_SIZE then Inl (ParseException InsufficientHeader)
      else
        let header = \<lparr>magic = readUint32LE data,
                      version = readUint32LE (drop 4 data),
                      reserved = readUint64LE (drop 8 data)\<rparr>
        in if \<not> isValid header
           then Inl (ParseException (InvalidHeader (magic header) (version header)))
           else Inr header)"

text \<open>
  In \<open>parse\<close> the field \<open>payload_length\<close> is a \<open>uint32_t\<close>. The sums \<open>28 + payload_length\<close> and
  \<open>24 + payload_length\<close> add an \<open>int\<close> to it, so they are computed in 32 bits and wrap
  before they are widened to \<open>size_t\<close>; the pointer \<open>data + 24 + payload_length\<close> does not
  wrap. The header is read after the first length check; the payload and the stored
  checksum are read after the second one, past the end of the bytes when there are fewer
  than \<open>28 + payload_length\<close> of them.
\<close>

definition parse :: "byte list \<Rightarrow> nat \<Rightarrow> exception + Event" where
  "parse data len =
     (if len < 28 then Inl (ParseException InsufficientRecord)
      else if length data < 24 then Inl out_of_bounds_read
      else
        let payload_length = readUint32LE (drop 20 data);
            expected_total = unat (28 + payload_length)
        in if len < expected_total
           then Inl (ParseException (InsufficientData expected_total len))
           else if length data < 24 + unat payload_length + 4 then Inl out_of_bounds_read
           else
             let stored_crc = readUint32LE (drop (24 + unat payload_length) data);
                 calculated_crc = calculateCRC32 data (unat (24 + payload_length))
             in if calculated_crc \<noteq> stored_crc
                then Inl (CorruptedEventException calculated_crc stored_crc)
                else Inr \<lparr>sequence_num = readUint64LE data,
                          timestamp_ns = readUint64LE (drop 8 data),
                          event_type = data ! 16,
                          payload = take (unat payload_length) (drop 24 data),
                          crc32 = stored_crc\<rparr>)"

subsection \<open>The serializer of the tests (createTestEvent)\<close>

definition le_bytes64 :: "64 word \<Rightarrow> byte list" where
  "le_bytes64 v = map (\<lambda>i. ucast (drop_bit (i * 8) v AND 0xFF)) [0..<8]"

definition le_bytes32 :: "32 word \<Rightarrow> byte list" where
  "le_bytes32 v = map (\<lambda>i. ucast (drop_bit (i * 8) v AND 0xFF)) [0..<4]"

definition createTestEvent :: "64 word \<Rightarrow> 64 word \<Rightarrow> EventType \<Rightarrow> byte list \<Rightarrow> byte list" where
  "createTestEvent seq ts type pl =
     (let payload_len = (of_nat (length pl) :: 32 word);
          data = le_bytes64 seq @ le_bytes64 ts @ [type] @ [0, 0, 0] @
                 le_bytes32 payload_len @ pl;
          crc = calculateCRC32 data (length data)
      in data @ le_bytes32 crc)"

text \<open>The bytes that \<open>createTestEvent\<close> has written before it appends the checksum.\<close>

definition record_prefix :: "64 word \<Rightarrow> 64 word \<Rightarrow> EventType \<Rightarrow> byte list \<Rightarrow> byte list" where
  "record_prefix seq ts type pl =
     le_bytes64 seq @ le_bytes64 ts @ [type] @ [0, 0, 0] @
     le_bytes32 (of_nat (length pl)) @ pl"

text \<open>
  A well-formed record, in the words of the specification: 24 bytes of header whose last
  four are the payload length \<open>N\<close>, then \<open>N\<close> bytes of payload, then the CRC32 of these
  \<open>24 + N\<close> bytes; \<open>28 + N\<close> bytes in all.
\<close>

definition well_formed_record :: "byte list \<Rightarrow> bool" where
  "well_formed_record bytes \<longleftrightarrow>
     28 \<le> length bytes \<and>
     length bytes = 28 + unat (readUint32LE (drop 20 bytes)) \<and>
     readUint32LE (drop (length bytes - 4) bytes) = crc32_of (take (length bytes - 4) bytes)"

section \<open>Log reader (EventLogReader.cpp)\<close>

text \<open>
  \<open>mapped_data_\<close> is \<open>nullptr\<close> after construction, \<open>MAP_FAILED\<close> after a failed \<open>mmap\<close>, or
  the address of a mapping, modelled by the bytes that the mapping shows. The sizes and the
  offset are \<open>size_t\<close> values that come from \<open>st_size\<close>, a non-negative \<open>off_t\<close> below
  \<open>2 ^ 63\<close>; \<open>readNext\<close> adds less than \<open>2 ^ 32\<close> to an offset below the file size before
  it compares, so none of its \<open>size_t\<close> sums wraps and the model computes them in \<open>nat\<close>.
  Its \<open>total_size = 28 + payload_length\<close> is the sum of an \<open>int\<close> and a \<open>uint32_t\<close>: it is
  computed in 32 bits and wraps before it is widened.
\<close>

datatype mapping = nullptr | MAP_FAILED | Mapped "byte list"

fun bytes_at :: "mapping \<Rightarrow> byte list" where
  "bytes_at (Mapped bs) = bs"
| "bytes_at nullptr = []"
| "bytes_at MAP_FAILED = []"

record EventLogReader =
  log_path :: string
  fd :: int
  mapped_data :: mapping
  file_size :: nat
  offset :: nat
  file_header :: FileHeader
  is_open :: bool

text \<open>
  The constructor leaves \<open>file_header_\<close> uninitialized; \<open>uninit\<close> stands for whatever it
  holds.
\<close>

definition EventLogReader_new :: "string \<Rightarrow> FileHeader \<Rightarrow> EventLogReader" where
  "EventLogReader_new path uninit =
     \<lparr>log_path = path, fd = - 1, mapped_data = nullptr, file_size = 0, offset = 0,
      file_header = uninit, is_open = False\<rparr>"

text \<open>
  \<open>readNext(Event& event)\<close> returns a \<open>bool\<close> or throws. The model returns that outcome
  together with the \<open>event\<close> of the caller and the reader as the call leaves them.
\<close>

definition readNext ::
  "EventLogReader \<Rightarrow> Event \<Rightarrow> (exception + bool) \<times> Event \<times> EventLogReader" where
  "readNext r event =
     (if \<not> is_open r then (Inl (runtime_error ''Reader not open''), event, r)
      else if offset r \<ge> file_size r then (Inr False, event, r)
      else if offset r + 24 > file_size r then (Inr False, event, r)
      else
        let header_ptr = drop (offset r) (bytes_at (mapped_data r));
            payload_length = readUint32LE (drop 20 header_ptr);
            total_size = unat (28 + payload_length)
        in if offset r + total_size > file_size r then (Inr False, event, r)
           else
             (case parse (drop (offset r) (bytes_at (mapped_data r))) total_size of
                Inl e \<Rightarrow> (Inl e, event, r)
              | Inr parsed \<Rightarrow> (Inr True, parsed, r\<lparr>offset := offset r + total_size\<rparr>)))"

definition eof :: "EventLogReader \<Rightarrow> bool" where
  "eof r \<longleftrightarrow> offset r \<ge> file_size r"

text \<open>
  What the operating system answers to the calls of \<open>remapIfGrown\<close>: \<open>fstat\<close> fails or
  reports \<open>st_size\<close>, \<open>munmap\<close> succeeds or not, \<open>mmap\<close> fails or maps the bytes of the file.
\<close>

record os_answers =
  fstat_size :: "nat option"
  munmap_ok :: bool
  mmap_bytes :: "byte list option"

definition remapIfGrown ::
  "os_answers \<Rightarrow> EventLogReader \<Rightarrow> (exception + bool) \<times> EventLogReader" where
  "remapIfGrown os r =
     (if \<not> is_open r then (Inr False, r)
      else
        (case fstat_size os of
           None \<Rightarrow> (Inr False, r)
         | Some new_size \<Rightarrow>
             if new_size \<le> file_size r then (Inr False, r)
             else if \<not> munmap_ok os then (Inl (runtime_error ''Failed to unmap file''), r)
             else
               (case mmap_bytes os of
                  None \<Rightarrow>
                    (Inl (runtime_error ''Failed to remap file''),
                     r\<lparr>file_size := new_size, mapped_data := MAP_FAILED\<rparr>)
                | Some bs \<Rightarrow>
                    (Inr True, r\<lparr>file_size := new_size, mapped_data := Mapped bs\<rparr>))))"

subsection \<open>Scenario S1: one record after the file header\<close>

definition S1_header :: "byte list" where
  "S1_header = [0x44, 0x41, 0x52, 0x54, 1, 0, 0, 0, 0, 0, 0, 0, 0, 0, 0, 0]"

definition S1_record :: "byte list" where
  "S1_record =
     [1, 0, 0, 0, 0, 0, 0, 0, 232, 3, 0, 0, 0, 0, 0, 0, 1, 0, 0, 0, 9, 0, 0, 0,
      123, 34, 115, 101, 113, 34, 58, 49, 125, 31, 29, 1, 221]"

definition S1_event :: Event where
  "S1_event =
     \<lparr>sequence_num = 1, timestamp_ns = 1000, event_type = TRADE_CREATED,
      payload = [123, 34, 115, 101, 113, 34, 58, 49, 125], crc32 = 0xDD011D1F\<rparr>"

text \<open>Scenario S4: the last byte of the record of S1, xor \<open>0xFF\<close>.\<close>

definition S4_record :: "byte list" where
  "S4_record = S1_record[36 := 34]"

text \<open>The first 28 bytes of a record whose length field is \<open>0xFFFFFFFF\<close>.\<close>

definition huge_length_record :: "byte list" where
  "huge_length_record =
     [1, 0, 0, 0, 0, 0, 0, 0, 232, 3, 0, 0, 0, 0, 0, 0, 1, 0, 0, 0, 255, 255, 255, 255,
      0, 0, 0, 0]"

definition blank_event :: Event where
  "blank_event =
     \<lparr>sequence_num = 0, timestamp_ns = 0, event_type = 0, payload = [], crc32 = 0\<rparr>"

text \<open>A reader that \<open>open\<close> has left on the mapped bytes \<open>bs\<close>, at offset 16.\<close>

definition opened_reader :: "byte list \<Rightarrow> EventLogReader" where
  "opened_reader bs =
     \<lparr>log_path = ''event_log.bin'', fd = 3, mapped_data = Mapped bs, file_size = length bs,
      offset = 16, file_header = \<lparr>magic = 0x54524144, version = 1, reserved = 0\<rparr>,
      is_open = True\<rparr>"

section \<open>Latency histogram (LatencyHistogram.cpp)\<close>

text \<open>
  \<open>samples_\<close> is a \<open>std::map<int64_t, size_t>\<close>: the list of its entries in increasing key
  order, which is the order in which \<open>percentile\<close> iterates and in which \<open>begin()\<close> and
  \<open>rbegin()\<close> are the first and the last entry. Latencies are \<open>int64_t\<close>, given by their
  integer value; \<open>sum_\<close> (here \<open>sum_ns\<close>) is not reduced to 64 bits, signed overflow being
  undefined in the source.
\<close>

record LatencyHistogram =
  samples :: "(int \<times> nat) list"
  total_count :: nat
  sum_ns :: int

definition LatencyHistogram_new :: LatencyHistogram where
  "LatencyHistogram_new = \<lparr>samples = [], total_count = 0, sum_ns = 0\<rparr>"

text \<open>\<open>samples_[latency_ns]++\<close> on the ordered map.\<close>

fun map_increment :: "int \<Rightarrow> (int \<times> nat) list \<Rightarrow> (int \<times> nat) list" where
  "map_increment k [] = [(k, 1)]"
| "map_increment k ((k', c) # rest) =
     (if k = k' then (k', c + 1) # rest
      else if k < k' then (k, 1) # (k', c) # rest
      else (k', c) # map_increment k rest)"

definition record_ns :: "int \<Rightarrow> LatencyHistogram \<Rightarrow> LatencyHistogram" where
  "record_ns latency_ns h =
     \<lparr>samples = map_increment latency_ns (samples h),
      total_count = total_count h + 1,
      sum_ns = sum_ns h + latency_ns\<rparr>"

definition clear :: "LatencyHistogram \<Rightarrow> LatencyHistogram" where
  "clear h = \<lparr>samples = [], total_count = 0, sum_ns = 0\<rparr>"

definition count :: "LatencyHistogram \<Rightarrow> nat" where
  "count h = total_count h"

definition min_ns :: "LatencyHistogram \<Rightarrow> int" where
  "min_ns h = (if samples h = [] then 0 else fst (hd (samples h)))"

definition max_ns :: "LatencyHistogram \<Rightarrow> int" where
  "max_ns h = (if samples h = [] then 0 else fst (last (samples h)))"

text \<open>The division of \<open>mean\<close> is the one of C++, which truncates towards zero.\<close>

definition mean :: "LatencyHistogram \<Rightarrow> int" where
  "mean h =
     (if total_count h = 0 then 0
      else sgn (sum_ns h) * (\<bar>sum_ns h\<bar> div int (total_count h)))"

text \<open>
  The loop of \<open>percentile\<close>: \<open>Some\<close> of the latency at which it returns, \<open>None\<close> when it
  runs to the end of the map.
\<close>

fun percentile_scan :: "(int \<times> nat) list \<Rightarrow> nat \<Rightarrow> nat \<Rightarrow> int option" where
  "percentile_scan [] cumulative target_index = None"
| "percentile_scan ((latency, n) # rest) cumulative target_index =
     (if cumulative + n > target_index then Some latency
      else percentile_scan rest (cumulative + n) target_index)"

text \<open>
  A \<open>double\<close> value: \<open>Some\<close> of the real number when it is finite, \<open>None\<close> when it is a
  NaN or an infinity. \<open>static_cast<size_t>\<close> of a \<open>double\<close> truncates towards zero and is
  defined when the truncated value is a \<open>size_t\<close>, a 64-bit value; otherwise the behaviour
  is undefined: \<open>None\<close>.
\<close>

definition static_cast_size_t :: "real option \<Rightarrow> nat option" where
  "static_cast_size_t d =
     (case d of
        None \<Rightarrow> None
      | Some x \<Rightarrow> if - 1 < x \<and> x < 2 ^ 64 then Some (nat \<lfloor>x\<rfloor>) else None)"

text \<open>
  Floating-point arithmetic is not modelled. The argument \<open>p\<close> of \<open>percentile\<close> is a
  \<open>double\<close>, of a type \<open>'d\<close> left open, and the double that \<open>p * total_count_\<close> evaluates to -
  the count converted to \<open>double\<close>, then the rounded product - is a parameter of the
  model, \<open>product p n\<close>. \<open>exact_product\<close> is the product of a finite \<open>p\<close>, given by its real
  value, without rounding, which is what the doubles give whenever the count and the exact
  product are doubles themselves. \<open>percentile\<close> returns \<open>None\<close> when the cast is undefined.
\<close>

definition exact_product :: "real \<Rightarrow> nat \<Rightarrow> real option" where
  "exact_product p n = Some (p * real n)"

definition percentile :: "('d \<Rightarrow> nat \<Rightarrow> real option) \<Rightarrow> 'd \<Rightarrow> LatencyHistogram \<Rightarrow> int option" where
  "percentile product p h =
     (if total_count h = 0 then Some 0
      else
        (case static_cast_size_t (product p (total_count h)) of
           None \<Rightarrow> None
         | Some index \<Rightarrow>
             let target_index = (if index \<ge> total_count h then total_count h - 1 else index)
             in case percentile_scan (samples h) 0 target_index of
                  Some latency \<Rightarrow> Some latency
                | None \<Rightarrow> Some (max_ns h)))"

subsection \<open>The histograms that calls can produce\<close>

datatype histogram_call = Record int | Clear

fun after_calls :: "histogram_call list \<Rightarrow> LatencyHistogram \<Rightarrow> LatencyHistogram" where
  "after_calls [] h = h"
| "after_calls (Record latency_ns # calls) h = after_calls calls (record_ns latency_ns h)"
| "after_calls (Clear # calls) h = after_calls calls (clear h)"

text \<open>The samples recorded since the last \<open>clear\<close>, given the samples \<open>acc\<close> recorded before.\<close>

fun recorded :: "histogram_call list \<Rightarrow> int list \<Rightarrow> int list" where
  "recorded [] acc = acc"
| "recorded (Record latency_ns # calls) acc = recorded calls (latency_ns # acc)"
| "recorded (Clear # calls) acc = recorded calls []"

text \<open>
  What holds of a histogram whose samples since the last \<open>clear\<close> are \<open>xs\<close>: the keys of
  the map are these samples in increasing order, every count is positive, and the counts
  add up to \<open>total_count_\<close>, the number of samples.
\<close>

definition histogram_inv :: "LatencyHistogram \<Rightarrow> int list \<Rightarrow> bool" where
  "histogram_inv h xs \<longleftrightarrow>
     sorted (map fst (samples h)) \<and>
     set (map fst (samples h)) = set xs \<and>
     (\<forall>e \<in> set (samples h). 0 < snd e) \<and>
     sum_list (map snd (samples h)) = total_count h \<and>
     total_count h = length xs"

section \<open>The driver (event_processor_main.cpp)\<close>

text \<open>
  \<open>producerThread\<close> and \<open>consumerThread\<close> run their work in a \<open>try\<close> block whose handler
  catches every \<open>std::exception\<close>, prints it and stores \<open>false\<close> into \<open>g_running\<close>. The
  work either completes or raises; the thread function returns in both cases. \<open>main\<close> joins
  the two workers, stores \<open>false\<close> into \<open>g_running\<close>, joins the monitor, prints the counts
  and returns. The model gives the value that \<open>main\<close> returns and the final \<open>g_running\<close>.
\<close>

datatype thread_work = Completed | Raised exception

definition producerThread :: "thread_work \<Rightarrow> bool \<Rightarrow> bool" where
  "producerThread work g_running = (case work of Completed \<Rightarrow> g_running | Raised e \<Rightarrow> False)"

definition consumerThread :: "thread_work \<Rightarrow> bool \<Rightarrow> bool" where
  "consumerThread work g_running = (case work of Completed \<Rightarrow> g_running | Raised e \<Rightarrow> False)"

definition main :: "thread_work \<Rightarrow> thread_work \<Rightarrow> bool \<Rightarrow> int \<times> bool" where
  "main producer_work consumer_work g_running =
     (let g1 = producerThread producer_work g_running;
          g2 = consumerThread consumer_work g1;
          g3 = False
      in (0, g3))"

text \<open>An unrecoverable error on a worker thread is an exception that reaches its handler.\<close>

definition error_recorded :: "thread_work \<Rightarrow> thread_work \<Rightarrow> bool" where
  "error_recorded producer_work consumer_work \<longleftrightarrow>
     producer_work \<noteq> Completed \<or> consumer_work \<noteq> Completed"

section \<open>SPSC ring (RingBuffer.h)\<close>

text \<open>
  The template parameter \<open>SIZE\<close> and both indices are \<open>size_t\<close>, 64 bits wide; the storage
  \<open>std::array<T, SIZE>\<close> is a list of \<open>SIZE\<close> slots. A data member \<open>x_\<close> of a class of the
  source is the field \<open>x\<close> of its record. The two \<open>static_assert\<close>s of the class
  decide which instantiations compile.
\<close>

definition RingBuffer_static_assert :: "64 word \<Rightarrow> bool" where
  "RingBuffer_static_assert SIZE \<longleftrightarrow> (SIZE AND (SIZE - 1)) = 0 \<and> SIZE > 0"

record 'a RingBuffer =
  head :: "64 word"
  tail :: "64 word"
  buffer :: "'a list"

text \<open>The constructor; \<open>d\<close> is the value-initialized \<open>T\<close> of \<open>buffer_{}\<close>.\<close>

definition RingBuffer_new :: "64 word \<Rightarrow> 'a \<Rightarrow> 'a RingBuffer" where
  "RingBuffer_new SIZE d = \<lparr>head = 0, tail = 0, buffer = replicate (unat SIZE) d\<rparr>"

definition try_push :: "64 word \<Rightarrow> 'a RingBuffer \<Rightarrow> 'a \<Rightarrow> bool \<times> 'a RingBuffer" where
  "try_push SIZE rb item =
     (let current_tail = tail rb;
          next_tail = (current_tail + 1) AND (SIZE - 1)
      in if next_tail = head rb then (False, rb)
         else (True, rb\<lparr>buffer := (buffer rb)[unat current_tail := item],
                         tail := next_tail\<rparr>))"

text \<open>
  \<open>try_pop(T& item)\<close> returns \<open>false\<close> and leaves \<open>item\<close> alone, or returns \<open>true\<close> with the
  slot moved into \<open>item\<close>: \<open>None\<close> and \<open>Some\<close> of the value. The slot moved from is not
  read again before \<open>try_push\<close> overwrites it; the model leaves it as it is.
\<close>

definition try_pop :: "64 word \<Rightarrow> 'a RingBuffer \<Rightarrow> 'a option \<times> 'a RingBuffer" where
  "try_pop SIZE rb =
     (let current_head = head rb
      in if current_head = tail rb then (None, rb)
         else (Some (buffer rb ! unat current_head),
               rb\<lparr>head := (current_head + 1) AND (SIZE - 1)\<rparr>))"

definition empty :: "'a RingBuffer \<Rightarrow> bool" where
  "empty rb \<longleftrightarrow> head rb = tail rb"

definition size_rb :: "64 word \<Rightarrow> 'a RingBuffer \<Rightarrow> 64 word" where
  "size_rb SIZE rb =
     (let h = head rb; t = tail rb in if t \<ge> h then t - h else SIZE - h + t)"

definition capacity :: "64 word \<Rightarrow> 64 word" where
  "capacity SIZE = SIZE - 1"

subsection \<open>Sequential runs of the ring and of a bounded FIFO queue\<close>

datatype 'a ring_op = Push 'a | Pop

datatype 'a ring_obs = PushReturned bool | PopReturned "'a option"

fun ring_run :: "64 word \<Rightarrow> 'a ring_op list \<Rightarrow> 'a RingBuffer \<Rightarrow> 'a ring_obs list \<times> 'a RingBuffer" where
  "ring_run SIZE [] rb = ([], rb)"
| "ring_run SIZE (Push x # ops) rb =
     (let (ok, rb') = try_push SIZE rb x;
          (obs, rb'') = ring_run SIZE ops rb'
      in (PushReturned ok # obs, rb''))"
| "ring_run SIZE (Pop # ops) rb =
     (let (item, rb') = try_pop SIZE rb;
          (obs, rb'') = ring_run SIZE ops rb'
      in (PopReturned item # obs, rb''))"

text \<open>
  The queue of the specification: a list of the values pushed and not yet popped, oldest
  first, that holds at most \<open>cap\<close> of them.
\<close>

fun fifo_run :: "nat \<Rightarrow> 'a ring_op list \<Rightarrow> 'a list \<Rightarrow> 'a ring_obs list \<times> 'a list" where
  "fifo_run cap [] q = ([], q)"
| "fifo_run cap (Push x # ops) q =
     (if length q = cap
      then (let (obs, q') = fifo_run cap ops q in (PushReturned False # obs, q'))
      else (let (obs, q') = fifo_run cap ops (q @ [x]) in (PushReturned True # obs, q')))"
| "fifo_run cap (Pop # ops) q =
     (case q of
        [] \<Rightarrow> (let (obs, q') = fifo_run cap ops [] in (PopReturned None # obs, q'))
      | y # ys \<Rightarrow> (let (obs, q') = fifo_run cap ops ys in (PopReturned (Some y) # obs, q')))"

text \<open>The slots between \<open>head\<close> and \<open>tail\<close>, oldest first.\<close>

definition contents :: "64 word \<Rightarrow> 'a RingBuffer \<Rightarrow> 'a list" where
  "contents SIZE rb =
     map (\<lambda>i. buffer rb ! ((unat (head rb) + i) mod unat SIZE))
       [0..<unat (size_rb SIZE rb)]"

text \<open>What holds of the ring between calls: both indices and the storage fit \<open>SIZE\<close>.\<close>

definition ring_inv :: "64 word \<Rightarrow> 'a RingBuffer \<Rightarrow> bool" where
  "ring_inv SIZE rb \<longleftrightarrow>
     unat (head rb) < unat SIZE \<and> unat (tail rb) < unat SIZE \<and>
     length (buffer rb) = unat SIZE"

section \<open>Power-of-two capacities\<close>

lemma nat_and_pred_zero_iff:
  fixes n :: nat
  assumes "0 < n"
  shows "(n AND (n - 1) = 0) = (\<exists>k. n = 2 ^ k)"
  using assms
proof (induction n rule: less_induct)
  case (less n)
  show ?case
  proof (cases "even n")
    case True
    then obtain q where q: "n = 2 * q" by (auto elim: evenE)
    with less.prems have qpos: "0 < q" by simp
    have pred: "n - 1 = 2 * (q - 1) + 1" using q qpos by simp
    have "n AND (n - 1) = 2 * (q AND (q - 1))"
      unfolding pred unfolding q
      by (subst and_rec) simp
    moreover have "(q AND (q - 1) = 0) = (\<exists>k. q = 2 ^ k)"
      using less.IH [of q] q qpos by simp
    moreover have "(\<exists>k. q = 2 ^ k) = (\<exists>k. n = 2 ^ k)"
    proof
      assume "\<exists>k. q = 2 ^ k"
      then obtain k where "q = 2 ^ k" ..
      then have "n = 2 ^ Suc k" using q by simp
      then show "\<exists>k. n = 2 ^ k" ..
    next
      assume "\<exists>k. n = 2 ^ k"
      then obtain k where k: "n = 2 ^ k" ..
      with True have "k \<noteq> 0" by (cases k) auto
      then obtain j where "k = Suc j" by (cases k) auto
      with k q have "q = 2 ^ j" by simp
      then show "\<exists>k. q = 2 ^ k" ..
    qed
    ultimately show ?thesis by simp
  next
    case False
    then obtain q where q: "n = 2 * q + 1" by (auto elim: oddE)
    have "n AND (n - 1) = 2 * q"
      unfolding q by (subst and_rec) simp
    moreover have "(q = 0) = (\<exists>k. n = 2 ^ k)"
    proof
      assume "q = 0"
      then have "n = 2 ^ 0" using q by simp
      then show "\<exists>k. n = 2 ^ k" ..
    next
      assume "\<exists>k. n = 2 ^ k"
      then obtain k where k: "n = 2 ^ k" ..
      with False have "k = 0" by (cases k) auto
      with k q show "q = 0" by simp
    qed
    ultimately show ?thesis by simp
  qed
qed

lemma pow2_less_64:
  fixes k :: nat
  shows "((2::nat) ^ k < 2 ^ 64) = (k < 64)"
  by (simp only: power_strict_increasing_iff rel_simps)

lemma unat_pow2:
  assumes "k < 64"
  shows "unat (2 ^ k :: 64 word) = 2 ^ k"
proof -
  have "(2 ^ k :: 64 word) = of_nat (2 ^ k)" by simp
  then have "unat (2 ^ k :: 64 word) = 2 ^ k mod 2 ^ 64"
    by (simp only: unat_of_nat) simp
  also have "\<dots> = 2 ^ k"
    using assms by (simp only: mod_less pow2_less_64)
  finally show ?thesis .
qed

text \<open>
  Claim C8, as the code has it. The two \<open>static_assert\<close>s of \<open>RingBuffer\<close> accept a
  capacity exactly when it is a power of two: \<open>2 ^ k\<close> for some \<open>k < 64\<close>. That includes
  \<open>2 ^ 0 = 1\<close>; only zero and the capacities that are not powers of two are rejected at
  compile time.
\<close>

theorem static_assert_iff_power_of_two:
  "RingBuffer_static_assert SIZE = (\<exists>k. k < 64 \<and> SIZE = 2 ^ k)"
proof (cases "SIZE = 0")
  case True
  have "(2 ^ k :: 64 word) \<noteq> 0" if "k < 64" for k
    using unat_pow2 [OF that] by (metis power_not_zero unat_0 zero_neq_numeral)
  with True show ?thesis
    by (auto simp: RingBuffer_static_assert_def)
next
  case False
  then have pos: "0 < unat SIZE" by (simp add: unat_gt_0)
  have "(SIZE AND (SIZE - 1) = 0) = (unat (SIZE AND (SIZE - 1)) = 0)"
    by (simp add: unat_eq_0)
  also have "unat (SIZE AND (SIZE - 1)) = unat SIZE AND (unat SIZE - 1)"
    using False by (simp add: unsigned_and_eq unat_minus_one)
  also have "(unat SIZE AND (unat SIZE - 1) = 0) = (\<exists>k. unat SIZE = 2 ^ k)"
    using nat_and_pred_zero_iff [OF pos] .
  also have "\<dots> = (\<exists>k. k < 64 \<and> SIZE = 2 ^ k)"
  proof
    assume "\<exists>k. unat SIZE = 2 ^ k"
    then obtain k where k: "unat SIZE = 2 ^ k" ..
    have "unat SIZE < 2 ^ 64" using unsigned_less [of SIZE] by simp
    with k have "k < 64" by (simp only: pow2_less_64)
    moreover have "SIZE = of_nat (unat SIZE)" by simp
    then have "SIZE = 2 ^ k" unfolding k by simp
    ultimately show "\<exists>k. k < 64 \<and> SIZE = 2 ^ k" by blast
  next
    assume "\<exists>k. k < 64 \<and> SIZE = 2 ^ k"
    then obtain k where "k < 64" "SIZE = 2 ^ k" by blast
    then have "unat SIZE = 2 ^ k" by (simp add: unat_pow2)
    then show "\<exists>k. unat SIZE = 2 ^ k" ..
  qed
  finally show ?thesis
    using False by (simp add: RingBuffer_static_assert_def word_neq_0_conv)
qed

theorem static_assert_iff_power_of_two_witness:
  "RingBuffer_static_assert 4096 \<and> \<not> RingBuffer_static_assert 3"
proof -
  have "(4096 :: 64 word) = 2 ^ 12" by simp
  then have "RingBuffer_static_assert 4096"
    using static_assert_iff_power_of_two [of 4096] by (metis numeral_less_iff semiring_norm(76,78,79,81))
  moreover have "\<not> RingBuffer_static_assert 3"
    by (simp add: RingBuffer_static_assert_def)
  ultimately show ?thesis ..
qed

text \<open>
  Claim C8, as the specification states it, fails at capacity 1: both assertions hold, so
  the ring of capacity 1 is constructible, and 1 is smaller than 2.
\<close>

theorem static_assert_accepts_one:
  "RingBuffer_static_assert 1 \<and> \<not> 2 \<le> unat (1 :: 64 word)"
  by (simp add: RingBuffer_static_assert_def)

section \<open>The ring is a bounded FIFO queue\<close>

lemma next_index_unat:
  assumes k: "k < 64" and S: "SIZE = (2 ^ k :: 64 word)" and x: "unat x < unat SIZE"
  shows "unat ((x + 1) AND (SIZE - 1)) = (unat x + 1) mod unat SIZE"
proof -
  have n: "unat SIZE = 2 ^ k" using k S by (simp add: unat_pow2)
  have "(2::nat) ^ k \<le> 2 ^ 63" using k by (intro power_increasing) auto
  with x n have "unat x + 1 < 2 ^ 64" by simp
  then have add: "unat (x + 1) = unat x + 1"
    using unat_add_lem [of x 1] by simp
  have "SIZE - 1 = mask k" unfolding S by (simp add: mask_eq_exp_minus_1)
  then have "(x + 1) AND (SIZE - 1) = take_bit k (x + 1)"
    by (simp add: take_bit_eq_mask)
  then have "unat ((x + 1) AND (SIZE - 1)) = take_bit k (unat (x + 1))"
    by (simp only: unsigned_take_bit_eq)
  then have "unat ((x + 1) AND (SIZE - 1)) = unat (x + 1) mod 2 ^ k"
    by (simp only: take_bit_eq_mod)
  with add n show ?thesis by simp
qed

lemma size_rb_unat:
  assumes "ring_inv SIZE rb"
  shows "unat (size_rb SIZE rb) =
     (if unat (head rb) \<le> unat (tail rb) then unat (tail rb) - unat (head rb)
      else unat SIZE - unat (head rb) + unat (tail rb))"
proof (cases "head rb \<le> tail rb")
  case True
  then show ?thesis
    by (simp add: size_rb_def Let_def unat_sub word_le_nat_alt)
next
  case False
  then have lt: "unat (tail rb) < unat (head rb)" by (simp add: word_le_nat_alt)
  from assms have hS: "head rb \<le> SIZE" by (simp add: ring_inv_def word_le_nat_alt)
  then have sub: "unat (SIZE - head rb) = unat SIZE - unat (head rb)" by (rule unat_sub)
  have "unat SIZE < 2 ^ 64" using unsigned_less [of SIZE] by simp
  moreover have "unat (head rb) < unat SIZE" using assms by (simp add: ring_inv_def)
  ultimately have "unat (SIZE - head rb) + unat (tail rb) < 2 ^ LENGTH(64)"
    unfolding sub using lt by simp
  then have "unat (SIZE - head rb + tail rb) = unat (SIZE - head rb) + unat (tail rb)"
    by (simp only: unat_add_lem)
  with False lt sub show ?thesis by (simp add: size_rb_def Let_def)
qed

lemma succ_mod:
  fixes t n :: nat
  assumes "t < n"
  shows "Suc t mod n = (if Suc t = n then 0 else Suc t)"
  using assms by (auto simp: mod_if)

lemma full_iff_nat:
  fixes h t n :: nat
  assumes "h < n" "t < n"
  shows "(Suc t mod n = h) = ((if h \<le> t then t - h else n - h + t) = n - 1)"
  unfolding succ_mod [OF assms(2)] using assms by (cases "Suc t = n") auto

lemma count_after_push_nat:
  fixes h t n :: nat
  assumes "h < n" "t < n" "Suc t mod n \<noteq> h"
  shows "(if h \<le> Suc t mod n then Suc t mod n - h else n - h + Suc t mod n) =
         Suc (if h \<le> t then t - h else n - h + t)"
  using assms(1,2,3) unfolding succ_mod [OF assms(2)] by (cases "Suc t = n") auto

lemma count_after_pop_nat:
  fixes h t n :: nat
  assumes "h < n" "t < n" "h \<noteq> t"
  shows "Suc (if Suc h mod n \<le> t then t - Suc h mod n else n - Suc h mod n + t) =
         (if h \<le> t then t - h else n - h + t)"
  using assms unfolding succ_mod [OF assms(1)] by (cases "Suc h = n") auto

lemma slot_of_count_nat:
  fixes h t n :: nat
  assumes "h < n" "t < n"
  shows "(h + (if h \<le> t then t - h else n - h + t)) mod n = t"
proof (cases "h \<le> t")
  case True
  with assms show ?thesis by simp
next
  case False
  with assms have "h + (n - h + t) = t + n" by simp
  with False assms show ?thesis by simp
qed

lemma slot_below_count_nat:
  fixes h t n i :: nat
  assumes "h < n" "t < n" "i < (if h \<le> t then t - h else n - h + t)"
  shows "(h + i) mod n \<noteq> t"
proof (cases "h + i < n")
  case True
  with assms show ?thesis by (auto split: if_splits)
next
  case False
  then have "(h + i) mod n = (h + i - n) mod n" by (simp add: le_mod_geq)
  moreover have "h + i - n < n" using assms by (auto split: if_splits)
  ultimately have "(h + i) mod n = h + i - n" by simp
  with False assms show ?thesis by (auto split: if_splits)
qed


lemma try_push_full:
  assumes k: "k < 64" and S: "SIZE = 2 ^ k" and inv: "ring_inv SIZE rb"
    and full: "unat (size_rb SIZE rb) = unat SIZE - 1"
  shows "try_push SIZE rb x = (False, rb)"
proof -
  from inv have h: "unat (head rb) < unat SIZE" and t: "unat (tail rb) < unat SIZE"
    by (simp_all add: ring_inv_def)
  have "unat ((tail rb + 1) AND (SIZE - 1)) = Suc (unat (tail rb)) mod unat SIZE"
    using next_index_unat [OF k S t] by simp
  also have "\<dots> = unat (head rb)"
    using full full_iff_nat [OF h t] by (simp add: size_rb_unat [OF inv])
  finally have "(tail rb + 1) AND (SIZE - 1) = head rb" by (rule word_unat_eq_iff [THEN iffD2])
  then show ?thesis by (simp add: try_push_def Let_def)
qed

lemma try_push_room:
  assumes k: "k < 64" and S: "SIZE = 2 ^ k" and inv: "ring_inv SIZE rb"
    and room: "unat (size_rb SIZE rb) \<noteq> unat SIZE - 1"
  shows "fst (try_push SIZE rb x) = True"
    and "ring_inv SIZE (snd (try_push SIZE rb x))"
    and "contents SIZE (snd (try_push SIZE rb x)) = contents SIZE rb @ [x]"
proof -
  let ?n = "unat SIZE" and ?h = "unat (head rb)" and ?t = "unat (tail rb)"
  let ?next = "(tail rb + 1) AND (SIZE - 1)"
  let ?rb' = "rb\<lparr>buffer := (buffer rb)[?t := x], tail := ?next\<rparr>"
  from inv have h: "?h < ?n" and t: "?t < ?n" and len: "length (buffer rb) = ?n"
    by (simp_all add: ring_inv_def)
  have nx: "unat ?next = Suc ?t mod ?n"
    using next_index_unat [OF k S t] by simp
  have ne: "Suc ?t mod ?n \<noteq> ?h"
    using room full_iff_nat [OF h t] by (simp add: size_rb_unat [OF inv])
  then have "?next \<noteq> head rb" using nx by auto
  then have push: "try_push SIZE rb x = (True, ?rb')"
    by (simp add: try_push_def Let_def)
  then show "fst (try_push SIZE rb x) = True" by simp
  have inv': "ring_inv SIZE ?rb'"
    using h t len nx by (simp add: ring_inv_def)
  with push show "ring_inv SIZE (snd (try_push SIZE rb x))" by simp
  let ?c = "unat (size_rb SIZE rb)"
  have c: "?c = (if ?h \<le> ?t then ?t - ?h else ?n - ?h + ?t)"
    by (rule size_rb_unat [OF inv])
  have "unat (size_rb SIZE ?rb') =
        (if ?h \<le> unat ?next then unat ?next - ?h else ?n - ?h + unat ?next)"
    using size_rb_unat [OF inv'] by simp
  also have "\<dots> = Suc ?c"
    unfolding nx c by (rule count_after_push_nat [OF h t ne])
  finally have c': "unat (size_rb SIZE ?rb') = Suc ?c" .
  have old: "(buffer rb)[?t := x] ! ((?h + i) mod ?n) = buffer rb ! ((?h + i) mod ?n)"
    if "i < ?c" for i
    using slot_below_count_nat [OF h t, of i] that c by (simp add: nth_list_update_neq)
  have new: "(buffer rb)[?t := x] ! ((?h + ?c) mod ?n) = x"
    using slot_of_count_nat [OF h t] c t len by simp
  have "contents SIZE ?rb' =
        map (\<lambda>i. (buffer rb)[?t := x] ! ((?h + i) mod ?n)) [0..<Suc ?c]"
    by (simp add: contents_def c')
  also have "\<dots> = map (\<lambda>i. (buffer rb)[?t := x] ! ((?h + i) mod ?n)) [0..<?c] @ [x]"
    using new by simp
  also have "map (\<lambda>i. (buffer rb)[?t := x] ! ((?h + i) mod ?n)) [0..<?c] = contents SIZE rb"
    unfolding contents_def using old by (intro map_cong) auto
  finally show "contents SIZE (snd (try_push SIZE rb x)) = contents SIZE rb @ [x]"
    using push by simp
qed

lemma try_pop_empty:
  assumes "unat (size_rb SIZE rb) = 0" and inv: "ring_inv SIZE rb"
  shows "try_pop SIZE rb = (None, rb)"
proof -
  from inv have h: "unat (head rb) < unat SIZE" and t: "unat (tail rb) < unat SIZE"
    by (simp_all add: ring_inv_def)
  from assms(1) have "unat (head rb) = unat (tail rb)"
    using h t by (simp add: size_rb_unat [OF inv] split: if_splits)
  then have "head rb = tail rb" by (rule word_unat_eq_iff [THEN iffD2])
  then show ?thesis by (simp add: try_pop_def Let_def)
qed

lemma try_pop_nonempty:
  assumes k: "k < 64" and S: "SIZE = 2 ^ k" and inv: "ring_inv SIZE rb"
    and some: "unat (size_rb SIZE rb) \<noteq> 0"
  shows "\<exists>y. fst (try_pop SIZE rb) = Some y \<and>
             contents SIZE rb = y # contents SIZE (snd (try_pop SIZE rb))"
    and "ring_inv SIZE (snd (try_pop SIZE rb))"
proof -
  let ?n = "unat SIZE" and ?h = "unat (head rb)" and ?t = "unat (tail rb)"
  let ?next = "(head rb + 1) AND (SIZE - 1)"
  let ?rb' = "rb\<lparr>head := ?next\<rparr>"
  from inv have h: "?h < ?n" and t: "?t < ?n" and len: "length (buffer rb) = ?n"
    by (simp_all add: ring_inv_def)
  have nx: "unat ?next = Suc ?h mod ?n"
    using next_index_unat [OF k S h] by simp
  let ?c = "unat (size_rb SIZE rb)"
  have c: "?c = (if ?h \<le> ?t then ?t - ?h else ?n - ?h + ?t)"
    by (rule size_rb_unat [OF inv])
  from some c have ne: "?h \<noteq> ?t" by auto
  then have "head rb \<noteq> tail rb" by auto
  then have pop: "try_pop SIZE rb = (Some (buffer rb ! ?h), ?rb')"
    by (simp add: try_pop_def Let_def)
  have inv': "ring_inv SIZE ?rb'"
    using h t len nx by (simp add: ring_inv_def)
  with pop show "ring_inv SIZE (snd (try_pop SIZE rb))" by simp
  have "unat (size_rb SIZE ?rb') =
        (if unat ?next \<le> ?t then ?t - unat ?next else ?n - unat ?next + ?t)"
    using size_rb_unat [OF inv'] by simp
  then have "Suc (unat (size_rb SIZE ?rb')) =
        Suc (if Suc ?h mod ?n \<le> ?t then ?t - Suc ?h mod ?n else ?n - Suc ?h mod ?n + ?t)"
    unfolding nx by (rule arg_cong)
  also have "\<dots> = ?c"
    unfolding c by (rule count_after_pop_nat [OF h t ne])
  finally have c': "Suc (unat (size_rb SIZE ?rb')) = ?c" .
  have shift: "(Suc ?h mod ?n + i) mod ?n = (?h + Suc i) mod ?n" for i
    by (simp add: mod_add_left_eq)
  have "contents SIZE rb = map (\<lambda>i. buffer rb ! ((?h + i) mod ?n)) [0..<Suc (unat (size_rb SIZE ?rb'))]"
    by (simp only: contents_def c')
  also have "\<dots> = buffer rb ! (?h mod ?n) #
       map (\<lambda>i. buffer rb ! ((?h + Suc i) mod ?n)) [0..<unat (size_rb SIZE ?rb')]"
    by (simp only: upt_conv_Cons zero_less_Suc list.map map_Suc_upt [symmetric] map_map o_def add_0_right)
  also have "map (\<lambda>i. buffer rb ! ((?h + Suc i) mod ?n)) [0..<unat (size_rb SIZE ?rb')] =
       contents SIZE ?rb'"
    by (simp add: contents_def nx shift)
  finally have "contents SIZE rb = buffer rb ! ?h # contents SIZE ?rb'"
    using h by simp
  with pop show "\<exists>y. fst (try_pop SIZE rb) = Some y \<and>
             contents SIZE rb = y # contents SIZE (snd (try_pop SIZE rb))"
    by simp
qed


lemma length_contents: "length (contents SIZE rb) = unat (size_rb SIZE rb)"
  by (simp add: contents_def)

lemma ring_inv_new:
  assumes "SIZE \<noteq> 0"
  shows "ring_inv SIZE (RingBuffer_new SIZE d)"
  using assms by (simp add: ring_inv_def RingBuffer_new_def unat_gt_0)

lemma contents_new: "contents SIZE (RingBuffer_new SIZE d) = []"
  by (simp add: contents_def RingBuffer_new_def size_rb_def)

lemma ring_run_refines:
  assumes k: "k < 64" and S: "SIZE = 2 ^ k"
  shows "ring_inv SIZE rb \<Longrightarrow>
     fst (ring_run SIZE ops rb) = fst (fifo_run (unat SIZE - 1) ops (contents SIZE rb)) \<and>
     contents SIZE (snd (ring_run SIZE ops rb)) =
       snd (fifo_run (unat SIZE - 1) ops (contents SIZE rb)) \<and>
     ring_inv SIZE (snd (ring_run SIZE ops rb))"
proof (induction ops arbitrary: rb)
  case Nil
  then show ?case by simp
next
  case (Cons op ops)
  note inv = Cons.prems
  show ?case
  proof (cases op)
    case (Push x)
    show ?thesis
    proof (cases "unat (size_rb SIZE rb) = unat SIZE - 1")
      case True
      have "try_push SIZE rb x = (False, rb)"
        by (rule try_push_full [OF k S inv True])
      with True Cons.IH [OF inv] Push show ?thesis
        by (simp add: length_contents case_prod_beta)
    next
      case False
      note room = try_push_room [OF k S inv False, of x]
      obtain rb' where push: "try_push SIZE rb x = (True, rb')"
        using room(1) by (cases "try_push SIZE rb x") auto
      with room have "ring_inv SIZE rb'" and "contents SIZE rb' = contents SIZE rb @ [x]"
        by simp_all
      with False Cons.IH [of rb'] Push push show ?thesis
        by (simp add: length_contents case_prod_beta)
    qed
  next
    case Pop
    show ?thesis
    proof (cases "unat (size_rb SIZE rb) = 0")
      case True
      have "try_pop SIZE rb = (None, rb)"
        by (rule try_pop_empty [OF True inv])
      moreover have "contents SIZE rb = []"
        using True length_contents [of SIZE rb] by simp
      ultimately show ?thesis
        using Cons.IH [OF inv] Pop by (simp add: case_prod_beta)
    next
      case False
      note some = try_pop_nonempty [OF k S inv False]
      obtain y rb' where pop: "try_pop SIZE rb = (Some y, rb')"
        and c: "contents SIZE rb = y # contents SIZE rb'"
        using some(1) by (cases "try_pop SIZE rb") auto
      with some(2) have "ring_inv SIZE rb'" by simp
      with Cons.IH [of rb'] Pop pop c show ?thesis
        by (simp add: case_prod_beta)
    qed
  qed
qed

text \<open>
  Claim C1. Run any sequence of \<open>try_push\<close> and \<open>try_pop\<close> calls on a freshly constructed
  ring whose capacity is a power of two, and run the same calls on a FIFO queue that holds
  at most \<open>SIZE - 1\<close> values. Every call returns the same on both: the values come out in
  push order. Afterwards the ring buffers exactly the values of the queue;
  \<open>try_push\<close> returns \<open>false\<close> exactly when \<open>SIZE - 1\<close> values are buffered and
  \<open>try_pop\<close> exactly when none is, and a call that returns \<open>false\<close> leaves the ring as it
  was; a call that succeeds appends the value, or removes the oldest one.
\<close>

theorem ring_buffer_is_bounded_fifo:
  assumes k: "k < 64" and S: "SIZE = 2 ^ k"
  shows "let rb = snd (ring_run SIZE ops (RingBuffer_new SIZE d));
             q = snd (fifo_run (unat SIZE - 1) ops [])
         in fst (ring_run SIZE ops (RingBuffer_new SIZE d)) = fst (fifo_run (unat SIZE - 1) ops []) \<and>
            contents SIZE rb = q \<and>
            unat (size_rb SIZE rb) = length q \<and>
            (\<forall>x. fst (try_push SIZE rb x) = (length q \<noteq> unat SIZE - 1)) \<and>
            (\<forall>x. length q = unat SIZE - 1 \<longrightarrow> try_push SIZE rb x = (False, rb)) \<and>
            (\<forall>x. length q \<noteq> unat SIZE - 1 \<longrightarrow>
               contents SIZE (snd (try_push SIZE rb x)) = q @ [x]) \<and>
            fst (try_pop SIZE rb) = (case q of [] \<Rightarrow> None | y # ys \<Rightarrow> Some y) \<and>
            (q = [] \<longrightarrow> try_pop SIZE rb = (None, rb)) \<and>
            (q \<noteq> [] \<longrightarrow> contents SIZE (snd (try_pop SIZE rb)) = tl q)"
proof -
  define rb where "rb = snd (ring_run SIZE ops (RingBuffer_new SIZE d))"
  define q where "q = snd (fifo_run (unat SIZE - 1) ops ([] :: 'a list))"
  have "SIZE \<noteq> 0" using unat_pow2 [OF k] S by (metis power_not_zero unat_0 zero_neq_numeral)
  then have inv0: "ring_inv SIZE (RingBuffer_new SIZE d)" by (rule ring_inv_new)
  note sim = ring_run_refines [OF k S inv0, of ops, unfolded contents_new]
  from sim have obs: "fst (ring_run SIZE ops (RingBuffer_new SIZE d)) = fst (fifo_run (unat SIZE - 1) ops [])"
    and c: "contents SIZE rb = q" and inv: "ring_inv SIZE rb"
    by (simp_all add: rb_def q_def)
  have len: "unat (size_rb SIZE rb) = length q"
    using c length_contents [of SIZE rb] by simp
  have push_full: "try_push SIZE rb x = (False, rb)" if "length q = unat SIZE - 1" for x
    using try_push_full [OF k S inv] that len by simp
  have push_room: "fst (try_push SIZE rb x) \<and> contents SIZE (snd (try_push SIZE rb x)) = q @ [x]"
    if "length q \<noteq> unat SIZE - 1" for x
    using try_push_room(1,3) [OF k S inv, of x] that len c by simp
  have pop_empty: "try_pop SIZE rb = (None, rb)" if "q = []"
    using try_pop_empty [OF _ inv] that len by simp
  have pop_some: "fst (try_pop SIZE rb) = Some (hd q) \<and> contents SIZE (snd (try_pop SIZE rb)) = tl q"
    if "q \<noteq> []"
    using try_pop_nonempty(1) [OF k S inv] that len c by auto
  have "fst (try_pop SIZE rb) = (case q of [] \<Rightarrow> None | y # ys \<Rightarrow> Some y)"
    using pop_empty pop_some by (cases q) auto
  moreover have "\<forall>x. fst (try_push SIZE rb x) = (length q \<noteq> unat SIZE - 1)"
    using push_full push_room by (metis fst_conv)
  ultimately show ?thesis
    unfolding Let_def rb_def [symmetric] q_def [symmetric]
    using obs c len push_full push_room pop_empty pop_some by blast
qed

theorem ring_buffer_is_bounded_fifo_witness:
  "(2::nat) < 64 \<and> (4 :: 64 word) = 2 ^ 2 \<and>
   fst (ring_run 4 [Push 10, Push 20, Push 30, Push 40, Pop, Pop, Push 50, Pop, Pop, Pop]
          (RingBuffer_new 4 (0::nat))) =
     [PushReturned True, PushReturned True, PushReturned True, PushReturned False,
      PopReturned (Some 10), PopReturned (Some 20), PushReturned True,
      PopReturned (Some 30), PopReturned (Some 50), PopReturned None]"
proof -
  have k: "(2::nat) < 64" by simp
  have S: "(4 :: 64 word) = 2 ^ 2" by simp
  have "fst (fifo_run (unat (4 :: 64 word) - 1)
          [Push 10, Push 20, Push 30, Push 40, Pop, Pop, Push 50, Pop, Pop, Pop] ([] :: nat list)) =
     [PushReturned True, PushReturned True, PushReturned True, PushReturned False,
      PopReturned (Some 10), PopReturned (Some 20), PushReturned True,
      PopReturned (Some 30), PopReturned (Some 50), PopReturned None]"
    by simp
  with ring_buffer_is_bounded_fifo [OF k S,
      of "[Push 10, Push 20, Push 30, Push 40, Pop, Pop, Push 50, Pop, Pop, Pop]" "0::nat"]
  show ?thesis by (simp only: Let_def k S simp_thms)
qed

section \<open>Record framing: byte order and 32-bit sums\<close>

lemma le_bytes32_unfold:
  "le_bytes32 v = [ucast (v AND 0xFF), ucast (drop_bit 8 v AND 0xFF),
                   ucast (drop_bit 16 v AND 0xFF), ucast (drop_bit 24 v AND 0xFF)]"
  by (simp add: le_bytes32_def upt_rec)

lemma le_bytes64_unfold:
  "le_bytes64 v = [ucast (v AND 0xFF), ucast (drop_bit 8 v AND 0xFF),
                   ucast (drop_bit 16 v AND 0xFF), ucast (drop_bit 24 v AND 0xFF),
                   ucast (drop_bit 32 v AND 0xFF), ucast (drop_bit 40 v AND 0xFF),
                   ucast (drop_bit 48 v AND 0xFF), ucast (drop_bit 56 v AND 0xFF)]"
  by (simp add: le_bytes64_def upt_rec)

lemma length_le_bytes32 [simp]: "length (le_bytes32 v) = 4"
  by (simp add: le_bytes32_def)

lemma length_le_bytes64 [simp]: "length (le_bytes64 v) = 8"
  by (simp add: le_bytes64_def)

lemma byte_mask: "(0xFF :: 'a::len word) = mask 8"
  by (simp add: mask_eq_exp_minus_1)

lemma readUint32LE_le_bytes32: "readUint32LE (le_bytes32 v @ rest) = v"
proof (rule bit_word_eqI)
  fix n assume "n < LENGTH(32)"
  then have n: "n < 32" by simp
  then consider "n < 8" | "8 \<le> n" "n < 16" | "16 \<le> n" "n < 24" | "24 \<le> n" "n < 32"
    by linarith
  then show "bit (readUint32LE (le_bytes32 v @ rest)) n = bit v n"
    by cases (auto simp add: readUint32LE_def le_bytes32_unfold byte_mask bit_simps)
qed


lemma bit_byte_slice64:
  fixes v :: "64 word"
  shows "bit (push_bit m (ucast (ucast (drop_bit m v AND mask 8) :: byte) :: 64 word)) n =
         (m \<le> n \<and> n < m + 8 \<and> bit v n)"
  by (auto simp add: bit_simps dest: bit_imp_le_length)

lemma bit_byte_low64:
  fixes v :: "64 word"
  shows "bit (ucast (ucast (v AND mask 8) :: byte) :: 64 word) n = (n < 8 \<and> bit v n)"
  using bit_byte_slice64 [of 0 v n] by simp

lemma readUint64LE_Cons:
  "readUint64LE (b0 # b1 # b2 # b3 # b4 # b5 # b6 # b7 # rest) =
     ucast b0 OR push_bit 8 (ucast b1) OR push_bit 16 (ucast b2) OR push_bit 24 (ucast b3) OR
     push_bit 32 (ucast b4) OR push_bit 40 (ucast b5) OR push_bit 48 (ucast b6) OR
     push_bit 56 (ucast b7)"
  by (simp add: readUint64LE_def)

lemma readUint64LE_le_bytes64: "readUint64LE (le_bytes64 v @ rest) = v"
proof (rule bit_word_eqI)
  fix n assume "n < LENGTH(64)"
  then have n: "n < 64" by simp
  have "bit (readUint64LE (le_bytes64 v @ rest)) n =
     (n < 8 \<and> bit v n \<or> 8 \<le> n \<and> n < 8 + 8 \<and> bit v n \<or>
      16 \<le> n \<and> n < 16 + 8 \<and> bit v n \<or> 24 \<le> n \<and> n < 24 + 8 \<and> bit v n \<or>
      32 \<le> n \<and> n < 32 + 8 \<and> bit v n \<or> 40 \<le> n \<and> n < 40 + 8 \<and> bit v n \<or>
      48 \<le> n \<and> n < 48 + 8 \<and> bit v n \<or> 56 \<le> n \<and> n < 56 + 8 \<and> bit v n)"
    unfolding le_bytes64_unfold append_Cons readUint64LE_Cons byte_mask
    by (simp only: bit_or_iff bit_byte_slice64 bit_byte_low64 disj_assoc)
  also have "\<dots> = bit v n" using n by linarith
  finally show "bit (readUint64LE (le_bytes64 v @ rest)) n = bit v n" .
qed

section \<open>Record framing: checksums\<close>

lemma funpow8: "(f ^^ 8) x = f (f (f (f (f (f (f (f x)))))))"
  by (simp add: eval_nat_numeral)

text \<open>
  What \<open>calculateCRC32\<close> returns: the CRC32 of the first \<open>length mod 2 ^ 32\<close> bytes.
\<close>

lemma zlib_crc32_initial: "zlib_crc32 0 [] 0 = 0"
  by (simp add: zlib_crc32_def)

lemma calculateCRC32_eq: "calculateCRC32 data len = crc32_of (take (len mod 2 ^ 32) data)"
  by (simp add: calculateCRC32_def zlib_crc32_initial zlib_crc32_def crc32_of_def unat_of_nat)

text \<open>The 32-bit sums of \<open>parse\<close> and \<open>readNext\<close>.\<close>

lemma unat_add_of_nat32:
  "unat (of_nat a + of_nat b :: 32 word) = (a + b) mod 2 ^ 32"
proof -
  have "(of_nat a + of_nat b :: 32 word) = of_nat (a + b)" by simp
  then show ?thesis by (simp only: unat_of_nat) simp
qed

lemma unat_28_plus:
  fixes w :: "32 word"
  shows "unat (28 + w) = (28 + unat w) mod 2 ^ 32"
  using unat_add_of_nat32 [of 28 "unat w"] by simp

lemma unat_24_plus:
  fixes w :: "32 word"
  shows "unat (24 + w) = (24 + unat w) mod 2 ^ 32"
  using unat_add_of_nat32 [of 24 "unat w"] by simp

lemma unat_28_plus_no_wrap:
  fixes w :: "32 word"
  assumes "28 \<le> unat (28 + w)"
  shows "unat (28 + w) = 28 + unat w"
proof (cases "28 + unat w < 2 ^ 32")
  case True
  then show ?thesis unfolding unat_28_plus by simp
next
  case False
  have "unat w < 2 ^ 32" using unsigned_less [of w] by simp
  with False have "(28 + unat w) mod 2 ^ 32 = 28 + unat w - 2 ^ 32"
    by (simp add: mod_if)
  with assms \<open>unat w < 2 ^ 32\<close> show ?thesis unfolding unat_28_plus by simp
qed

section \<open>Record framing: round trip\<close>

lemma createTestEvent_eq:
  "createTestEvent seq ts ty pl =
     record_prefix seq ts ty pl @
     le_bytes32 (crc32_of (take ((24 + length pl) mod 2 ^ 32) (record_prefix seq ts ty pl)))"
  by (simp add: createTestEvent_def record_prefix_def Let_def calculateCRC32_eq)

lemma length_record_prefix: "length (record_prefix seq ts ty pl) = 24 + length pl"
  by (simp add: record_prefix_def)

lemma length_createTestEvent: "length (createTestEvent seq ts ty pl) = 28 + length pl"
  by (simp add: createTestEvent_eq length_record_prefix)

lemma unat_payload_len:
  assumes "length pl < 2 ^ 32"
  shows "unat (of_nat (length pl) :: 32 word) = length pl"
  using assms by (simp add: unat_of_nat)

lemma record_fields:
  shows "readUint64LE (record_prefix seq ts ty pl @ rest) = seq"
    and "readUint64LE (drop 8 (record_prefix seq ts ty pl @ rest)) = ts"
    and "(record_prefix seq ts ty pl @ rest) ! 16 = ty"
    and "readUint32LE (drop 20 (record_prefix seq ts ty pl @ rest)) = of_nat (length pl)"
    and "drop 24 (record_prefix seq ts ty pl @ rest) = pl @ rest"
    and "take (24 + length pl) (record_prefix seq ts ty pl @ rest) = record_prefix seq ts ty pl"
proof -
  show "readUint64LE (record_prefix seq ts ty pl @ rest) = seq"
    unfolding record_prefix_def append_assoc by (rule readUint64LE_le_bytes64)
  show "readUint64LE (drop 8 (record_prefix seq ts ty pl @ rest)) = ts"
    unfolding record_prefix_def append_assoc
    by (simp add: readUint64LE_le_bytes64)
  show "(record_prefix seq ts ty pl @ rest) ! 16 = ty"
    unfolding record_prefix_def append_assoc
    by (simp add: nth_append)
  show "readUint32LE (drop 20 (record_prefix seq ts ty pl @ rest)) = of_nat (length pl)"
    unfolding record_prefix_def append_assoc
    by (simp add: readUint32LE_le_bytes32)
  show "drop 24 (record_prefix seq ts ty pl @ rest) = pl @ rest"
    unfolding record_prefix_def append_assoc by simp
  show "take (24 + length pl) (record_prefix seq ts ty pl @ rest) = record_prefix seq ts ty pl"
    by (simp add: length_record_prefix)
qed


text \<open>
  \<open>parse\<close> of a serialized event succeeds for every payload shorter than \<open>2 ^ 32\<close> bytes and
  returns its sequence number, timestamp, type and payload; the \<open>crc32\<close> it returns is the
  CRC32 of the first \<open>(24 + payload_length) mod 2 ^ 32\<close> bytes.
\<close>

lemma parse_createTestEvent:
  assumes "length pl < 2 ^ 32"
  shows "parse (createTestEvent seq ts ty pl) (length (createTestEvent seq ts ty pl)) =
     Inr \<lparr>sequence_num = seq, timestamp_ns = ts, event_type = ty, payload = pl,
          crc32 = crc32_of (take ((24 + length pl) mod 2 ^ 32) (createTestEvent seq ts ty pl))\<rparr>"
proof -
  let ?pre = "record_prefix seq ts ty pl"
  let ?m = "(24 + length pl) mod 2 ^ 32"
  let ?crc = "crc32_of (take ?m ?pre)"
  let ?bytes = "createTestEvent seq ts ty pl"
  have bytes: "?bytes = ?pre @ le_bytes32 ?crc" by (rule createTestEvent_eq)
  note f = record_fields [where seq = seq and ts = ts and ty = ty and pl = pl
      and rest = "le_bytes32 ?crc", folded bytes]
  have len: "length ?bytes = 28 + length pl" by (rule length_createTestEvent)
  have w: "readUint32LE (drop 20 ?bytes) = of_nat (length pl)" by (rule f(4))
  have n: "unat (of_nat (length pl) :: 32 word) = length pl"
    by (rule unat_payload_len [OF assms])
  have total: "unat (28 + of_nat (length pl) :: 32 word) \<le> 28 + length pl"
    unfolding unat_28_plus n by (rule mod_less_eq_dividend)
  have m: "?m \<le> 24 + length pl" by (rule mod_less_eq_dividend)
  have "drop (24 + length pl) ?bytes = le_bytes32 ?crc"
    unfolding bytes by (simp add: length_record_prefix)
  then have stored: "readUint32LE (drop (24 + length pl) ?bytes) = ?crc"
    using readUint32LE_le_bytes32 [of ?crc "[]"] by simp
  have "take ?m ?bytes = take ?m ?pre"
    unfolding bytes using m by (simp add: length_record_prefix)
  then have calc: "calculateCRC32 ?bytes (unat (24 + of_nat (length pl) :: 32 word)) = ?crc"
    unfolding calculateCRC32_eq unat_24_plus n by simp
  have crc: "crc32_of (take ?m ?bytes) = ?crc"
    using \<open>take ?m ?bytes = take ?m ?pre\<close> by simp
  show ?thesis
    unfolding parse_def w Let_def n stored calc crc
    using total f(1,2,3,5) by (simp add: len)
qed

text \<open>
  For payloads shorter than \<open>2 ^ 32 - 24\<close> bytes that is the round trip with the CRC32 of the
  first \<open>24 + payload_length\<close> bytes.
\<close>

lemma parse_createTestEvent_roundtrip_below_wrap:
  assumes "24 + length pl < 2 ^ 32"
  shows "parse (createTestEvent seq ts ty pl) (length (createTestEvent seq ts ty pl)) =
     Inr \<lparr>sequence_num = seq, timestamp_ns = ts, event_type = ty, payload = pl,
          crc32 = crc32_of (take (24 + length pl) (createTestEvent seq ts ty pl))\<rparr>"
proof -
  from assms have "length pl < 2 ^ 32" by simp
  from parse_createTestEvent [OF this, of seq ts ty] assms show ?thesis by simp
qed


section \<open>Record framing: truncation\<close>

lemma readUint32LE_take:
  assumes "n + 4 \<le> k"
  shows "readUint32LE (drop n (take k bytes)) = readUint32LE (drop n bytes)"
proof -
  have "drop n (take k bytes) ! i = drop n bytes ! i" if "i < 4" for i
  proof -
    from that assms have "n + i < k" by simp
    then show ?thesis by (simp add: drop_take)
  qed
  then have "drop n (take k bytes) ! 0 = drop n bytes ! 0"
    and "drop n (take k bytes) ! 1 = drop n bytes ! 1"
    and "drop n (take k bytes) ! 2 = drop n bytes ! 2"
    and "drop n (take k bytes) ! 3 = drop n bytes ! 3"
    by simp_all
  then show ?thesis by (simp only: readUint32LE_def)
qed


text \<open>
  A well-formed record shorter than \<open>2 ^ 32\<close> bytes, cut to its first \<open>k\<close> bytes, makes
  \<open>parse\<close> throw a plain \<open>ParseException\<close> for insufficient data.
\<close>

lemma parse_truncated_below_wrap:
  assumes wf: "well_formed_record bytes" and lt: "length bytes < 2 ^ 32"
    and k: "k < length bytes"
  shows "parse (take k bytes) k =
     Inl (ParseException (if k < 28 then InsufficientRecord
                          else InsufficientData (length bytes) k))"
proof (cases "k < 28")
  case True
  then show ?thesis by (simp add: parse_def)
next
  case False
  then have "20 + 4 \<le> k" by simp
  then have rd: "readUint32LE (drop 20 (take k bytes)) = readUint32LE (drop 20 bytes)"
    by (rule readUint32LE_take)
  from wf have L: "28 + unat (readUint32LE (drop 20 bytes)) = length bytes"
    unfolding well_formed_record_def by (elim conjE) (rule sym)
  have "unat (28 + readUint32LE (drop 20 bytes)) = length bytes"
    unfolding unat_28_plus L using lt by simp
  then show ?thesis
    using False k unfolding parse_def rd Let_def by simp
qed

text \<open>
  When \<open>28 + payload_length\<close> reaches \<open>2 ^ 32\<close> the 32-bit sum is below 28, every \<open>k \<ge> 28\<close>
  passes the length check, and \<open>parse\<close> reads past the \<open>k\<close> bytes.
\<close>

lemma parse_truncated_wrapped:
  assumes "28 \<le> k" and "k \<le> length bytes"
    and "k < 28 + unat (readUint32LE (drop 20 bytes))"
    and "2 ^ 32 \<le> 28 + unat (readUint32LE (drop 20 bytes))"
  shows "parse (take k bytes) k = Inl out_of_bounds_read"
proof -
  let ?w = "readUint32LE (drop 20 bytes)"
  from assms(1) have "20 + 4 \<le> k" by simp
  then have rd: "readUint32LE (drop 20 (take k bytes)) = ?w"
    by (rule readUint32LE_take)
  have "unat ?w < 2 ^ 32" using unsigned_less [of ?w] by simp
  with assms(4) have "(28 + unat ?w) mod 2 ^ 32 = 28 + unat ?w - 2 ^ 32"
    by (simp add: mod_if)
  with \<open>unat ?w < 2 ^ 32\<close> have small: "unat (28 + ?w) < 28"
    unfolding unat_28_plus by simp
  have len: "length (take k bytes) = k" using assms(2) by simp
  show ?thesis
    unfolding parse_def rd Let_def len using assms(1,3) small by simp
qed

text \<open>
  Claim C3, at an input where the code does not do what the claim says. The claim is that
  \<open>parse\<close> of the first \<open>k\<close> bytes of a record of \<open>L = 28 + payload_length\<close> bytes, \<open>k < L\<close>,
  fails with insufficient data. Take the first 28 bytes of the serialized event whose
  payload is \<open>2 ^ 32 - 1\<close> zero bytes: the length field is \<open>0xFFFFFFFF\<close>, the sum
  \<open>28 + payload_length\<close> wraps to 27, the length check passes, and \<open>parse\<close> goes on to read
  the payload past the end of the 28 bytes instead of throwing.
\<close>

theorem parse_truncated_reads_out_of_bounds:
  "take 28 (createTestEvent 1 1000 TRADE_CREATED (replicate 4294967295 0)) =
     huge_length_record \<and>
   28 < length (createTestEvent 1 1000 TRADE_CREATED (replicate 4294967295 0)) \<and>
   parse huge_length_record 28 = Inl out_of_bounds_read"
proof -
  have "take 28 (createTestEvent 1 1000 TRADE_CREATED (replicate 4294967295 0)) =
     huge_length_record"
    unfolding createTestEvent_eq huge_length_record_def
  proof -
    have four: "replicate 4 (0 :: byte) = [0, 0, 0, 0]" by (simp add: numeral_eq_Suc)
    show "take 28 (record_prefix 1 1000 TRADE_CREATED (replicate 4294967295 0) @
        le_bytes32 (crc32_of (take ((24 + length (replicate 4294967295 (0 :: byte))) mod 2 ^ 32)
          (record_prefix 1 1000 TRADE_CREATED (replicate 4294967295 0))))) =
      [1, 0, 0, 0, 0, 0, 0, 0, 232, 3, 0, 0, 0, 0, 0, 0, 1, 0, 0, 0, 255, 255, 255, 255,
       0, 0, 0, 0]"
      by (simp add: record_prefix_def le_bytes64_unfold le_bytes32_unfold TRADE_CREATED_def four)
  qed
  moreover have "28 < length (createTestEvent 1 1000 TRADE_CREATED (replicate 4294967295 0))"
    by (simp add: length_createTestEvent)
  moreover have "parse huge_length_record 28 = Inl out_of_bounds_read"
    by (simp add: parse_def readUint32LE_def huge_length_record_def)
  ultimately show ?thesis by blast
qed


section \<open>Scenarios S1 and S4\<close>

text \<open>The CRC of the model gives the check value of CRC-32/ISO-HDLC on \<open>123456789\<close>.\<close>

lemma crc32_of_check_value:
  "crc32_of [0x31, 0x32, 0x33, 0x34, 0x35, 0x36, 0x37, 0x38, 0x39] = 0xCBF43926"
  by (simp add: crc32_of_def crc_byte_def funpow8 crc_shift_def)

lemma crc32_of_S1:
  "crc32_of [1, 0, 0, 0, 0, 0, 0, 0, 232, 3, 0, 0, 0, 0, 0, 0, 1, 0, 0, 0, 9, 0, 0, 0,
      123, 34, 115, 101, 113, 34, 58, 49, 125] = 0xDD011D1F"
  by (simp add: crc32_of_def crc_byte_def funpow8 crc_shift_def)

lemma createTestEvent_S1:
  "createTestEvent 1 1000 TRADE_CREATED [123, 34, 115, 101, 113, 34, 58, 49, 125] = S1_record"
proof -
  have pre: "record_prefix 1 1000 TRADE_CREATED [123, 34, 115, 101, 113, 34, 58, 49, 125] =
     [1, 0, 0, 0, 0, 0, 0, 0, 232, 3, 0, 0, 0, 0, 0, 0, 1, 0, 0, 0, 9, 0, 0, 0,
      123, 34, 115, 101, 113, 34, 58, 49, 125]"
    by (simp add: record_prefix_def le_bytes64_unfold le_bytes32_unfold TRADE_CREATED_def)
  show ?thesis
    unfolding createTestEvent_eq pre
    by (simp add: crc32_of_S1 le_bytes32_unfold S1_record_def)
qed

lemma parse_S1_record: "parse S1_record 37 = Inr S1_event"
  by (simp add: parse_def S1_record_def S1_event_def readUint32LE_def readUint64LE_def
      calculateCRC32_eq crc32_of_S1 TRADE_CREATED_def)

lemma S1_record_well_formed: "well_formed_record S1_record"
  by (simp add: well_formed_record_def S1_record_def readUint32LE_def crc32_of_S1)

lemma createTestEvent_well_formed:
  assumes "24 + length pl < 2 ^ 32"
  shows "well_formed_record (createTestEvent seq ts ty pl)"
proof -
  let ?pre = "record_prefix seq ts ty pl"
  let ?crc = "crc32_of ?pre"
  from assms have lt: "length pl < 2 ^ 32" by simp
  have "(24 + length pl) mod 2 ^ 32 = 24 + length pl" using assms by simp
  then have "take ((24 + length pl) mod 2 ^ 32) ?pre = ?pre"
    by (simp add: length_record_prefix)
  then have eq: "createTestEvent seq ts ty pl = ?pre @ le_bytes32 ?crc"
    by (simp only: createTestEvent_eq)
  have n: "unat (readUint32LE (drop 20 (?pre @ le_bytes32 ?crc))) = length pl"
    using record_fields(4) [of seq ts ty pl] unat_payload_len [OF lt] by simp
  show ?thesis
    unfolding well_formed_record_def eq n
    by (simp add: length_record_prefix readUint32LE_le_bytes32 [of _ "[]", simplified])
qed

section \<open>File header\<close>

text \<open>
  Claim C5, as the code has it. Given at least 16 bytes, \<open>parseFileHeader\<close> succeeds exactly
  when the magic is \<open>0x54524144\<close> and the version is 1, and throws a \<open>ParseException\<close>
  that names both fields otherwise. The 64-bit reserved field is read and returned, with
  whatever value it has: \<open>isValid\<close> does not look at it.
\<close>

theorem parseFileHeader_checks_magic_and_version:
  assumes "FileHeader_SIZE \<le> len"
  shows "parseFileHeader data len =
     (if readUint32LE data = 0x54524144 \<and> readUint32LE (drop 4 data) = 1
      then Inr \<lparr>magic = 0x54524144, version = 1, reserved = readUint64LE (drop 8 data)\<rparr>
      else Inl (ParseException (InvalidHeader (readUint32LE data) (readUint32LE (drop 4 data)))))"
  using assms
  by (simp add: parseFileHeader_def isValid_def EXPECTED_MAGIC_def EXPECTED_VERSION_def Let_def)

theorem parseFileHeader_checks_magic_and_version_witness:
  "FileHeader_SIZE \<le> 16 \<and>
   parseFileHeader [0x44, 0x41, 0x52, 0x54, 1, 0, 0, 0, 0, 0, 0, 0, 0, 0, 0, 0] 16 =
     Inr \<lparr>magic = 0x54524144, version = 1, reserved = 0\<rparr> \<and>
   parseFileHeader [0xFF, 0, 0, 0, 0, 0, 0, 0, 0, 0, 0, 0, 0, 0, 0, 0] 16 =
     Inl (ParseException (InvalidHeader 0xFF 0))"
proof -
  have len: "FileHeader_SIZE \<le> 16" by (simp add: FileHeader_SIZE_def)
  show ?thesis
    using len
      parseFileHeader_checks_magic_and_version [OF len,
        of "[0x44, 0x41, 0x52, 0x54, 1, 0, 0, 0, 0, 0, 0, 0, 0, 0, 0, 0]"]
      parseFileHeader_checks_magic_and_version [OF len,
        of "[0xFF, 0, 0, 0, 0, 0, 0, 0, 0, 0, 0, 0, 0, 0, 0, 0]"]
    by (simp add: readUint32LE_def readUint64LE_def)
qed

text \<open>
  Claim C5, as the specification states it, fails on a header whose magic and version are
  right and whose reserved field is 1: \<open>parseFileHeader\<close> succeeds.
\<close>

theorem parseFileHeader_accepts_nonzero_reserved:
  "parseFileHeader [0x44, 0x41, 0x52, 0x54, 1, 0, 0, 0, 1, 0, 0, 0, 0, 0, 0, 0] 16 =
     Inr \<lparr>magic = 0x54524144, version = 1, reserved = 1\<rparr> \<and>
   readUint64LE (drop 8 [0x44, 0x41, 0x52, 0x54, 1, 0, 0, 0, 1, 0, 0, 0, 0, 0, 0, 0]) \<noteq> 0"
  by (simp add: parseFileHeader_def FileHeader_SIZE_def isValid_def EXPECTED_MAGIC_def
      EXPECTED_VERSION_def readUint32LE_def readUint64LE_def)

section \<open>Log reader: offset\<close>

lemma parse_payload_length:
  assumes "parse data len = Inr ev"
  shows "length (payload ev) = unat (readUint32LE (drop 20 data))"
    and "28 \<le> len"
    and "unat (28 + readUint32LE (drop 20 data)) \<le> len"
proof -
  let ?w = "readUint32LE (drop 20 data)"
  from assms have ok: "\<not> len < 28" "\<not> len < unat (28 + ?w)"
      "\<not> length data < 24 + unat ?w + 4"
    by (auto simp: parse_def Let_def split: if_splits)
  then show "28 \<le> len" and "unat (28 + ?w) \<le> len" by simp_all
  from assms ok have "payload ev = take (unat ?w) (drop 24 data)"
    by (auto simp: parse_def Let_def split: if_splits)
  with ok show "length (payload ev) = unat ?w" by simp
qed

lemma parse_below_28:
  assumes "len < 28"
  shows "parse data len = Inl (ParseException InsufficientRecord)"
  using assms by (simp add: parse_def)

text \<open>
  Claim C4. Take a reader whose mapping shows the \<open>file_size_\<close> bytes of the file. A call of
  \<open>readNext\<close> that returns \<open>true\<close> advances the offset by \<open>28 + payload_length\<close>, the length of
  the record at the offset, which is the total size of the event returned, and stays
  within the file. Every other outcome - \<open>false\<close> or an exception, among them the CRC
  mismatch - leaves the reader and the caller's event as they were, so the offset never
  decreases. \<open>false\<close> is what the call returns at the end of the file, with fewer than 24
  bytes left, and with fewer than \<open>28 + payload_length\<close> left when that sum is below
  \<open>2 ^ 32\<close>. When the sum reaches \<open>2 ^ 32\<close> the 32-bit \<open>total_size\<close> is below 28, and if that
  many bytes are left \<open>parse\<close> throws its first \<open>ParseException\<close>; the offset is unchanged
  there too.
\<close>

theorem readNext_advances_by_whole_records:
  assumes m: "mapped_data r = Mapped bs" and len: "length bs = file_size r"
  shows "let (result, event', r') = readNext r event;
             payload_length = unat (readUint32LE (drop (offset r + 20) bs))
         in (result = Inr True \<longrightarrow>
               offset r' = offset r + (28 + payload_length) \<and>
               length (payload event') = payload_length \<and>
               offset r' = offset r + totalSize event' \<and>
               offset r' \<le> file_size r \<and>
               r' = r\<lparr>offset := offset r'\<rparr>) \<and>
            (result \<noteq> Inr True \<longrightarrow> r' = r \<and> event' = event) \<and>
            offset r \<le> offset r' \<and>
            (is_open r \<and> file_size r \<le> offset r \<longrightarrow> result = Inr False) \<and>
            (is_open r \<and> file_size r < offset r + 24 \<longrightarrow> result = Inr False) \<and>
            (is_open r \<and> 28 + payload_length < 2 ^ 32 \<and>
             file_size r < offset r + (28 + payload_length) \<longrightarrow> result = Inr False) \<and>
            (is_open r \<and> offset r + 24 \<le> file_size r \<and> 2 ^ 32 \<le> 28 + payload_length \<and>
             offset r + (28 + payload_length - 2 ^ 32) \<le> file_size r \<longrightarrow>
               result = Inl (ParseException InsufficientRecord))"
proof -
  let ?data = "drop (offset r) bs"
  let ?w = "readUint32LE (drop (offset r + 20) bs)"
  let ?T = "unat (28 + ?w)"
  have dd: "drop 20 (drop k xs) = drop (k + 20) xs" for k and xs :: "byte list"
    by (simp add: add.commute)
  have b: "bytes_at (mapped_data r) = bs" using m by simp
  have wlt: "unat ?w < 2 ^ 32" using unsigned_less [of ?w] by simp
  have T: "?T = (if 28 + unat ?w < 2 ^ 32 then 28 + unat ?w else 28 + unat ?w - 2 ^ 32)"
    unfolding unat_28_plus using wlt by (simp add: mod_if)
  show ?thesis
  proof (cases "is_open r \<and> offset r < file_size r \<and> offset r + 24 \<le> file_size r \<and>
                offset r + ?T \<le> file_size r")
    case False
    then have "readNext r event = (if is_open r then Inr False
        else Inl (runtime_error ''Reader not open''), event, r)"
      unfolding readNext_def Let_def dd b by auto
    with False T show ?thesis by (auto split: if_splits)
  next
    case True
    then have rn: "readNext r event =
        (case parse ?data ?T of
           Inl e \<Rightarrow> (Inl e, event, r)
         | Inr parsed \<Rightarrow> (Inr True, parsed, r\<lparr>offset := offset r + ?T\<rparr>))"
      unfolding readNext_def Let_def dd b by simp
    show ?thesis
    proof (cases "parse ?data ?T")
      case (Inl e)
      have "e = ParseException InsufficientRecord" if "2 ^ 32 \<le> 28 + unat ?w"
      proof -
        from that T wlt have "?T < 28" by simp
        from parse_below_28 [OF this, of ?data] Inl show ?thesis by simp
      qed
      with rn Inl True T show ?thesis by (auto split: if_splits)
    next
      case (Inr parsed)
      note pl = parse_payload_length [OF Inr, unfolded dd]
      from pl(2) have nowrap: "?T = 28 + unat ?w" by (rule unat_28_plus_no_wrap)
      with T wlt have small: "28 + unat ?w < 2 ^ 32" by (simp split: if_splits)
      from rn Inr True pl(1) nowrap small show ?thesis
        by (simp add: totalSize_def)
    qed
  qed
qed


lemma S1_readNext:
  "readNext (opened_reader (S1_header @ S1_record)) blank_event =
     (Inr True, S1_event, opened_reader (S1_header @ S1_record)\<lparr>offset := 53\<rparr>)"
  by (simp add: readNext_def opened_reader_def S1_header_def S1_record_def S1_event_def
      parse_def readUint32LE_def readUint64LE_def calculateCRC32_eq crc32_of_S1
      TRADE_CREATED_def)

lemma S4_readNext:
  "readNext (opened_reader (S1_header @ S4_record)) blank_event =
     (Inl (CorruptedEventException 0xDD011D1F 0x22011D1F), blank_event,
      opened_reader (S1_header @ S4_record))"
  by (simp add: readNext_def opened_reader_def S1_header_def S1_record_def S4_record_def
      parse_def readUint32LE_def readUint64LE_def calculateCRC32_eq crc32_of_S1)

lemma huge_length_readNext:
  "readNext (opened_reader (S1_header @ huge_length_record)) blank_event =
     (Inl (ParseException InsufficientRecord), blank_event,
      opened_reader (S1_header @ huge_length_record))"
  by (simp add: readNext_def opened_reader_def S1_header_def huge_length_record_def
      parse_def readUint32LE_def)

theorem readNext_advances_by_whole_records_witness:
  "mapped_data (opened_reader (S1_header @ S1_record)) = Mapped (S1_header @ S1_record) \<and>
   length (S1_header @ S1_record) = file_size (opened_reader (S1_header @ S1_record)) \<and>
   fst (readNext (opened_reader (S1_header @ S1_record)) blank_event) = Inr True \<and>
   offset (snd (snd (readNext (opened_reader (S1_header @ S1_record)) blank_event))) =
     16 + totalSize S1_event \<and>
   mapped_data (opened_reader (S1_header @ S4_record)) = Mapped (S1_header @ S4_record) \<and>
   length (S1_header @ S4_record) = file_size (opened_reader (S1_header @ S4_record)) \<and>
   fst (readNext (opened_reader (S1_header @ S4_record)) blank_event) =
     Inl (CorruptedEventException 0xDD011D1F 0x22011D1F) \<and>
   snd (snd (readNext (opened_reader (S1_header @ S4_record)) blank_event)) =
     opened_reader (S1_header @ S4_record) \<and>
   fst (readNext (opened_reader (S1_header @ huge_length_record)) blank_event) =
     Inl (ParseException InsufficientRecord) \<and>
   snd (snd (readNext (opened_reader (S1_header @ huge_length_record)) blank_event)) =
     opened_reader (S1_header @ huge_length_record)"
proof -
  have m: "mapped_data (opened_reader bs) = Mapped bs"
    and l: "length bs = file_size (opened_reader bs)"
    and off: "offset (opened_reader bs) = 16" for bs
    by (simp_all add: opened_reader_def)
  note t1 = readNext_advances_by_whole_records [OF m l, of "S1_header @ S1_record" blank_event,
      unfolded S1_readNext]
  note t4 = readNext_advances_by_whole_records [OF m l, of "S1_header @ S4_record" blank_event,
      unfolded S4_readNext]
  note th = readNext_advances_by_whole_records [OF m l,
      of "S1_header @ huge_length_record" blank_event, unfolded huge_length_readNext]
  from t1 have "offset (opened_reader (S1_header @ S1_record)\<lparr>offset := 53\<rparr>) =
      offset (opened_reader (S1_header @ S1_record)) + totalSize S1_event"
    unfolding Let_def prod.case by blast
  moreover from t4 have "offset (opened_reader (S1_header @ S4_record)) \<le>
      offset (opened_reader (S1_header @ S4_record))"
    unfolding Let_def prod.case by blast
  moreover from th have "offset (opened_reader (S1_header @ huge_length_record)) \<le>
      offset (opened_reader (S1_header @ huge_length_record))"
    unfolding Let_def prod.case by blast
  ultimately show ?thesis
    using m l off by (simp add: S1_readNext S4_readNext huge_length_readNext)
qed

text \<open>
  Claim C10. On a reader that is not open, \<open>readNext\<close> throws the runtime error
  "Reader not open" and leaves the reader and the caller's event unchanged, whereas
  \<open>remapIfGrown\<close> returns \<open>false\<close>, whatever the operating system would answer, and leaves the
  reader unchanged.
\<close>

theorem unopened_reader_throws_or_returns_false:
  assumes "\<not> is_open r"
  shows "readNext r event = (Inl (runtime_error ''Reader not open''), event, r) \<and>
         remapIfGrown os r = (Inr False, r)"
  using assms by (simp add: readNext_def remapIfGrown_def)

theorem unopened_reader_throws_or_returns_false_witness:
  "\<not> is_open (EventLogReader_new ''event_log.bin'' \<lparr>magic = 0, version = 0, reserved = 0\<rparr>) \<and>
   readNext (EventLogReader_new ''event_log.bin'' \<lparr>magic = 0, version = 0, reserved = 0\<rparr>) S1_event =
     (Inl (runtime_error ''Reader not open''), S1_event,
      EventLogReader_new ''event_log.bin'' \<lparr>magic = 0, version = 0, reserved = 0\<rparr>) \<and>
   remapIfGrown \<lparr>fstat_size = Some 53, munmap_ok = True, mmap_bytes = Some (S1_header @ S1_record)\<rparr>
       (EventLogReader_new ''event_log.bin'' \<lparr>magic = 0, version = 0, reserved = 0\<rparr>) =
     (Inr False, EventLogReader_new ''event_log.bin'' \<lparr>magic = 0, version = 0, reserved = 0\<rparr>)"
proof -
  have closed: "\<not> is_open (EventLogReader_new ''event_log.bin'' \<lparr>magic = 0, version = 0, reserved = 0\<rparr>)"
    by (simp add: EventLogReader_new_def)
  from closed unopened_reader_throws_or_returns_false [OF closed]
  show ?thesis by blast
qed

text \<open>
  Claim C6, as the code has it. On an open reader \<open>remapIfGrown\<close> never changes the offset,
  whether it returns or throws. It returns \<open>true\<close> exactly when \<open>fstat\<close> succeeds with a size
  above the mapped size and both \<open>munmap\<close> and \<open>mmap\<close> succeed, and then only the cached size
  and the mapping change. It returns \<open>false\<close>, leaving the reader as it was, exactly when
  \<open>fstat\<close> fails or the size has not grown. It throws exactly when the size has grown and
  \<open>munmap\<close> or \<open>mmap\<close> fails.
\<close>

theorem remapIfGrown_preserves_offset:
  assumes "is_open r"
  shows "let (result, r') = remapIfGrown os r
         in offset r' = offset r \<and>
            (result = Inr True \<longleftrightarrow>
               (\<exists>n bs. fstat_size os = Some n \<and> file_size r < n \<and> munmap_ok os \<and>
                       mmap_bytes os = Some bs \<and>
                       r' = r\<lparr>file_size := n, mapped_data := Mapped bs\<rparr>)) \<and>
            (result = Inr False \<longleftrightarrow>
               (fstat_size os = None \<or> (\<exists>n. fstat_size os = Some n \<and> n \<le> file_size r))) \<and>
            (result = Inr False \<longrightarrow> r' = r) \<and>
            ((\<exists>e. result = Inl e) \<longleftrightarrow>
               (\<exists>n. fstat_size os = Some n \<and> file_size r < n \<and>
                    (\<not> munmap_ok os \<or> mmap_bytes os = None)))"
  using assms
  by (auto simp: remapIfGrown_def split: option.splits)


theorem remapIfGrown_preserves_offset_witness:
  "is_open (opened_reader S1_header) \<and>
   remapIfGrown \<lparr>fstat_size = Some 53, munmap_ok = True, mmap_bytes = Some (S1_header @ S1_record)\<rparr>
       (opened_reader S1_header) =
     (Inr True, opened_reader S1_header
        \<lparr>file_size := 53, mapped_data := Mapped (S1_header @ S1_record)\<rparr>) \<and>
   offset (snd (remapIfGrown
       \<lparr>fstat_size = Some 53, munmap_ok = True, mmap_bytes = Some (S1_header @ S1_record)\<rparr>
       (opened_reader S1_header))) = 16"
proof -
  let ?os = "\<lparr>fstat_size = Some 53, munmap_ok = True, mmap_bytes = Some (S1_header @ S1_record)\<rparr>"
  let ?r = "opened_reader S1_header"
  have op: "is_open ?r" by (simp add: opened_reader_def)
  have sz: "file_size ?r = 16" and off: "offset ?r = 16"
    by (simp_all add: opened_reader_def S1_header_def)
  obtain result r' where res: "remapIfGrown ?os ?r = (result, r')"
    by (cases "remapIfGrown ?os ?r")
  note t = remapIfGrown_preserves_offset [OF op, of ?os, unfolded res Let_def prod.case]
  from t have o: "offset r' = offset ?r" by blast
  from t have "result = Inr True \<longleftrightarrow>
      (\<exists>n bs. fstat_size ?os = Some n \<and> file_size ?r < n \<and> munmap_ok ?os \<and>
               mmap_bytes ?os = Some bs \<and> r' = ?r\<lparr>file_size := n, mapped_data := Mapped bs\<rparr>)"
    by blast
  then have "result = Inr True \<longleftrightarrow>
      r' = ?r\<lparr>file_size := 53, mapped_data := Mapped (S1_header @ S1_record)\<rparr>"
    by (simp add: sz)
  moreover have "result = Inr True" using res by (simp add: remapIfGrown_def op sz)
  ultimately show ?thesis using op res o off by simp
qed

text \<open>
  Claim C6, as the specification states it, fails when the file has grown and \<open>mmap\<close>
  fails: the size from \<open>fstat\<close> exceeds the mapped size, and the call does not return
  \<open>true\<close>, it throws.
\<close>

theorem remapIfGrown_throws_when_mmap_fails:
  "is_open (opened_reader S1_header) \<and>
   fstat_size \<lparr>fstat_size = Some 53, munmap_ok = True, mmap_bytes = None\<rparr> = Some 53 \<and>
   file_size (opened_reader S1_header) < 53 \<and>
   fst (remapIfGrown \<lparr>fstat_size = Some 53, munmap_ok = True, mmap_bytes = None\<rparr>
          (opened_reader S1_header)) = Inl (runtime_error ''Failed to remap file'')"
  by (simp add: remapIfGrown_def opened_reader_def S1_header_def)

section \<open>Exit status of the driver\<close>

text \<open>
  Claim C7, as the code has it. \<open>main\<close> returns 0 whenever it returns, whether the workers
  completed or an exception reached the handler of either: the handler prints the error
  and clears \<open>g_running\<close>, and nothing carries the error to the exit status.
\<close>

theorem main_returns_zero:
  "main producer_work consumer_work g_running = (0, False)"
  by (simp add: main_def Let_def)

text \<open>
  Claim C7, as the specification states it, fails when the producer raises the CRC mismatch
  of scenario S4: an error is recorded and the exit status is 0.
\<close>

theorem main_returns_zero_after_error:
  "error_recorded (Raised (CorruptedEventException 0xDD011D1F 0x22011D1F)) Completed \<and>
   fst (main (Raised (CorruptedEventException 0xDD011D1F 0x22011D1F)) Completed True) = 0"
  by (simp add: error_recorded_def main_def Let_def)

section \<open>Latency histogram: empty and clamped percentiles\<close>

lemma set_map_increment: "fst ` set (map_increment k es) = insert k (fst ` set es)"
  by (induction k es rule: map_increment.induct) (simp_all add: insert_commute)

lemma sorted_map_increment:
  "sorted (map fst es) \<Longrightarrow> sorted (map fst (map_increment k es))"
proof (induction k es rule: map_increment.induct)
  case (1 k)
  then show ?case by simp
next
  case (2 k k' c rest)
  show ?case
  proof (cases "k = k' \<or> k < k'")
    case True
    with 2 show ?thesis by auto
  next
    case False
    with 2 have "sorted (map fst (map_increment k rest))" by simp
    moreover from 2(2) have "\<forall>x \<in> fst ` set rest. k' \<le> x" by simp
    with False have "\<forall>x \<in> fst ` set (map_increment k rest). k' \<le> x"
      unfolding set_map_increment by simp
    ultimately show ?thesis using False by simp
  qed
qed

lemma positive_map_increment:
  "\<forall>e \<in> set es. 0 < snd e \<Longrightarrow> \<forall>e \<in> set (map_increment k es). 0 < snd e"
  by (induction k es rule: map_increment.induct) simp_all

lemma sum_map_increment:
  "sum_list (map snd (map_increment k es)) = Suc (sum_list (map snd es))"
  by (induction k es rule: map_increment.induct) simp_all

lemma histogram_inv_record:
  assumes "histogram_inv h xs"
  shows "histogram_inv (record_ns x h) (x # xs)"
proof -
  from assms have srt: "sorted (map fst (samples h))"
    and keys: "fst ` set (samples h) = set xs"
    and pos: "\<forall>e \<in> set (samples h). 0 < snd e"
    and total: "sum_list (map snd (samples h)) = total_count h"
    and len: "total_count h = length xs"
    by (simp_all add: histogram_inv_def)
  show ?thesis
    unfolding histogram_inv_def record_ns_def
    using sorted_map_increment [OF srt, of x] positive_map_increment [OF pos, of x]
      keys total len
    by (simp add: set_map_increment sum_map_increment)
qed

lemma histogram_inv_clear: "histogram_inv (clear h) []"
  by (simp add: histogram_inv_def clear_def)

lemma histogram_inv_after_calls:
  "histogram_inv h xs \<Longrightarrow> histogram_inv (after_calls calls h) (recorded calls xs)"
proof (induction calls arbitrary: h xs)
  case Nil
  then show ?case by simp
next
  case (Cons c calls)
  show ?case
  proof (cases c)
    case (Record x)
    with Cons.IH [OF histogram_inv_record [OF Cons.prems, of x]] show ?thesis by simp
  next
    case Clear
    with Cons.IH [OF histogram_inv_clear, of h] show ?thesis by simp
  qed
qed

lemma percentile_scan_last:
  assumes "es \<noteq> []" and "\<forall>e \<in> set es. 0 < snd e"
  shows "percentile_scan es acc (acc + sum_list (map snd es) - 1) = Some (fst (last es))"
  using assms
proof (induction es arbitrary: acc)
  case Nil
  then show ?case by simp
next
  case (Cons e es)
  obtain latency n where e: "e = (latency, n)" by (cases e)
  from Cons.prems e have n: "0 < n" by simp
  show ?case
  proof (cases "es = []")
    case True
    with n show ?thesis by (simp add: e)
  next
    case False
    from Cons.prems have pos: "\<forall>e \<in> set es. 0 < snd e" by simp
    from False obtain e' es' where "es = e' # es'" by (cases es) auto
    with pos have "0 < sum_list (map snd es)" by simp
    then have "\<not> acc + n > acc + sum_list (map snd (e # es)) - 1"
      by (simp add: e)
    moreover have "acc + sum_list (map snd (e # es)) - 1 = (acc + n) + sum_list (map snd es) - 1"
      by (simp add: e)
    ultimately show ?thesis
      using Cons.IH [OF False pos, of "acc + n"] False by (simp add: e)
  qed
qed

lemma sorted_last_Max:
  fixes ks :: "int list"
  assumes "sorted ks" and "ks \<noteq> []"
  shows "last ks = Max (set ks)"
  using assms
proof (induction ks)
  case Nil
  then show ?case by simp
next
  case (Cons k ks)
  show ?case
  proof (cases "ks = []")
    case True
    then show ?thesis by simp
  next
    case False
    with Cons have l: "last ks = Max (set ks)" by simp
    from Cons.prems have "\<forall>x \<in> set ks. k \<le> x" by simp
    moreover from False obtain x where "x \<in> set ks" by (cases ks) auto
    ultimately have "k \<le> Max (set ks)" using False by (auto simp: Max_ge_iff)
    with l show ?thesis using False by (simp add: max_def)
  qed
qed

lemma static_cast_size_t_clamped:
  assumes "real n \<le> x" and "x < 2 ^ 64"
  shows "\<exists>i. static_cast_size_t (Some x) = Some i \<and> n \<le> i"
proof -
  from assms(1) have "n \<le> nat \<lfloor>x\<rfloor>" by (rule le_nat_floor)
  moreover from assms(1) have "- 1 < x" by (rule less_le_trans [rotated]) simp
  ultimately show ?thesis using assms(2) by (simp add: static_cast_size_t_def)
qed

lemma exact_product_ge:
  assumes "1 \<le> q"
  shows "real n \<le> q * real n"
  using assms by (simp add: mult_le_cancel_right1)

lemma histogram_inv_empty:
  assumes "histogram_inv h []"
  shows "total_count h = 0" and "samples h = []"
  using assms by (simp_all add: histogram_inv_def)

lemma percentile_no_samples:
  assumes "total_count h = 0"
  shows "percentile f d h = Some 0"
  using assms by (simp add: percentile_def)

lemma percentile_clamped:
  assumes inv: "histogram_inv h xs" and ne: "xs \<noteq> []"
    and val: "f d (total_count h) = Some x" and ge: "real (total_count h) \<le> x"
    and lt: "x < 2 ^ 64"
  shows "percentile f d h = Some (max_ns h)" and "percentile f d h = Some (Max (set xs))"
proof -
  from inv have srt: "sorted (map fst (samples h))"
    and keys: "set (map fst (samples h)) = set xs"
    and pos: "\<forall>e \<in> set (samples h). 0 < snd e"
    and total: "sum_list (map snd (samples h)) = total_count h"
    and len: "total_count h = length xs"
    by (simp_all add: histogram_inv_def)
  from ne len have n: "total_count h \<noteq> 0" by simp
  from ne keys have sne: "samples h \<noteq> []" by auto
  from static_cast_size_t_clamped [OF ge lt] val obtain i
    where i: "static_cast_size_t (f d (total_count h)) = Some i" "total_count h \<le> i"
    by auto
  have "percentile_scan (samples h) 0 (total_count h - 1) = Some (fst (last (samples h)))"
    using percentile_scan_last [OF sne pos, of 0] total by simp
  then have p: "percentile f d h = Some (fst (last (samples h)))"
    using n i by (simp add: percentile_def Let_def)
  then show "percentile f d h = Some (max_ns h)" using sne by (simp add: max_ns_def)
  have "fst (last (samples h)) = Max (set xs)"
    using sorted_last_Max [OF srt] sne keys by (simp add: last_map)
  with p show "percentile f d h = Some (Max (set xs))" by simp
qed

lemma percentile_undefined:
  assumes "total_count h \<noteq> 0"
    and "f d (total_count h) = None \<or> (\<exists>x. f d (total_count h) = Some x \<and> 2 ^ 64 \<le> x)"
  shows "percentile f d h = None"
proof -
  from assms(2) have "static_cast_size_t (f d (total_count h)) = None"
    by (auto simp: static_cast_size_t_def)
  with assms(1) show ?thesis by (simp add: percentile_def)
qed

text \<open>
  Claim C9, as the code has it. Take the histogram that any sequence of \<open>record\<close> and
  \<open>clear\<close> calls leaves. Its count is the number of samples recorded since the last
  \<open>clear\<close>. When there is none, \<open>percentile(p)\<close> for every \<open>p\<close>, \<open>min()\<close>, \<open>max()\<close> and
  \<open>mean()\<close> all return 0. Whenever the double product \<open>p * total_count_\<close> is finite, at least
  the count and below \<open>2 ^ 64\<close>, its conversion to \<open>size_t\<close> is defined, the target index
  is clamped to the last one, and \<open>percentile(p)\<close> returns what \<open>max()\<close> returns, the largest
  recorded sample; with a product that is computed without rounding this holds for every
  \<open>q \<ge> 1\<close> whose product stays below \<open>2 ^ 64\<close>. When there are samples and the product is
  not finite or reaches \<open>2 ^ 64\<close>, the conversion is undefined.
\<close>

theorem percentile_empty_and_clamped:
  "let h = after_calls calls LatencyHistogram_new; xs = recorded calls []
   in count h = length xs \<and>
      (xs = [] \<longrightarrow>
         percentile product p h = Some 0 \<and> min_ns h = 0 \<and> max_ns h = 0 \<and> mean h = 0) \<and>
      (\<forall>x. product p (count h) = Some x \<and> real (count h) \<le> x \<and> x < 2 ^ 64 \<longrightarrow>
         percentile product p h = Some (max_ns h) \<and>
         (xs \<noteq> [] \<longrightarrow> percentile product p h = Some (Max (set xs)))) \<and>
      (1 \<le> q \<and> q * real (count h) < 2 ^ 64 \<longrightarrow>
         percentile exact_product q h = Some (max_ns h)) \<and>
      (xs \<noteq> [] \<and>
       (product p (count h) = None \<or> (\<exists>x. product p (count h) = Some x \<and> 2 ^ 64 \<le> x)) \<longrightarrow>
         percentile product p h = None)"
proof -
  define h where "h = after_calls calls LatencyHistogram_new"
  define xs where "xs = recorded calls []"
  have "histogram_inv LatencyHistogram_new []"
    by (simp add: histogram_inv_def LatencyHistogram_new_def)
  then have inv: "histogram_inv h xs"
    unfolding h_def xs_def by (rule histogram_inv_after_calls)
  then have len: "total_count h = length xs" by (simp add: histogram_inv_def)
  have c: "count h = total_count h" by (simp add: count_def)
  have cnt: "count h = length xs" using len c by simp
  have empty: "total_count h = 0 \<and> samples h = []" if "xs = []"
    using histogram_inv_empty [of h] inv that by simp
  have zeros: "min_ns h = 0 \<and> max_ns h = 0 \<and> mean h = 0" if "xs = []"
    using empty [OF that] by (simp add: min_ns_def max_ns_def mean_def)
  have none: "percentile product p h = Some 0" if "xs = []"
    using empty [OF that] by (simp add: percentile_no_samples)
  have top: "percentile product p h = Some (max_ns h) \<and>
      (xs \<noteq> [] \<longrightarrow> percentile product p h = Some (Max (set xs)))"
    if "product p (count h) = Some x" and "real (count h) \<le> x" and "x < 2 ^ 64" for x
  proof (cases "xs = []")
    case True
    with none zeros show ?thesis by simp
  next
    case False
    from percentile_clamped [OF inv False, of product p x] that show ?thesis
      unfolding c by simp
  qed
  have exact: "percentile exact_product q h = Some (max_ns h)"
    if q: "1 \<le> q" and lt: "q * real (count h) < 2 ^ 64"
  proof (cases "xs = []")
    case True
    from empty [OF True] zeros [OF True] show ?thesis
      by (simp add: percentile_no_samples)
  next
    case False
    have val: "exact_product q (total_count h) = Some (q * real (total_count h))"
      by (simp add: exact_product_def)
    have ge: "real (total_count h) \<le> q * real (total_count h)"
      by (rule exact_product_ge [OF q])
    from lt have "q * real (total_count h) < 2 ^ 64" unfolding c .
    with inv False val ge show ?thesis
      by (rule percentile_clamped(1))
  qed
  have undef: "percentile product p h = None"
    if "xs \<noteq> []"
      and "product p (count h) = None \<or> (\<exists>x. product p (count h) = Some x \<and> 2 ^ 64 \<le> x)"
  proof -
    from that(1) len have "total_count h \<noteq> 0" by simp
    from percentile_undefined [OF this, of product p] that(2) show ?thesis
      unfolding c by simp
  qed
  show ?thesis
    unfolding Let_def h_def [symmetric] xs_def [symmetric]
    using cnt none zeros top exact undef by blast
qed

theorem percentile_empty_and_clamped_witness:
  "percentile exact_product 1
      (after_calls [Record 300, Record 100, Clear, Record 500, Record 200, Record 500]
        LatencyHistogram_new) = Some 500 \<and>
   percentile exact_product (99 / 100) (after_calls [Record 300, Clear] LatencyHistogram_new) =
     Some 0 \<and>
   min_ns (after_calls [Record 300, Clear] LatencyHistogram_new) = 0 \<and>
   max_ns (after_calls [Record 300, Clear] LatencyHistogram_new) = 0 \<and>
   mean (after_calls [Record 300, Clear] LatencyHistogram_new) = 0"
proof -
  let ?calls = "[Record 300, Record 100, Clear, Record 500, Record 200, Record 500]"
  have r1: "recorded ?calls [] = [500, 200, 500]" by simp
  have r2: "recorded [Record 300, Clear] [] = []" by simp
  note t1 = percentile_empty_and_clamped [of ?calls exact_product 1 1, unfolded Let_def r1]
  note t2 = percentile_empty_and_clamped [of "[Record 300, Clear]" exact_product "99 / 100" 1,
      unfolded Let_def r2]
  from t1 have cnt: "count (after_calls ?calls LatencyHistogram_new) = 3" by simp
  have "exact_product 1 (count (after_calls ?calls LatencyHistogram_new)) = Some 3 \<and>
      real (count (after_calls ?calls LatencyHistogram_new)) \<le> 3 \<and> (3 :: real) < 2 ^ 64"
    unfolding cnt by (simp add: exact_product_def)
  with t1 have "percentile exact_product 1 (after_calls ?calls LatencyHistogram_new) =
      Some (Max (set [500, 200, 500]))"
    by blast
  moreover have "Max (set [500, 200, 500 :: int]) = 500" by simp
  moreover from t2 have
    "percentile exact_product (99 / 100) (after_calls [Record 300, Clear] LatencyHistogram_new) =
       Some 0 \<and>
     min_ns (after_calls [Record 300, Clear] LatencyHistogram_new) = 0 \<and>
     max_ns (after_calls [Record 300, Clear] LatencyHistogram_new) = 0 \<and>
     mean (after_calls [Record 300, Clear] LatencyHistogram_new) = 0"
    by blast
  ultimately show ?thesis by (simp only: simp_thms)
qed

text \<open>
  Claim C9, as stated for every \<open>p \<ge> 1\<close>, fails at \<open>p = 2 ^ 63\<close> on a histogram with the two
  samples 300 and 100: the product is \<open>2 ^ 64\<close>, exactly, its conversion to \<open>size_t\<close> is
  undefined, and \<open>percentile\<close> is not bound to return 300, the largest sample.
\<close>

theorem percentile_undefined_for_large_p:
  "(1 :: real) \<le> 2 ^ 63 \<and>
   max_ns (after_calls [Record 300, Record 100] LatencyHistogram_new) = 300 \<and>
   exact_product (2 ^ 63) (count (after_calls [Record 300, Record 100] LatencyHistogram_new)) =
     Some (2 ^ 64) \<and>
   percentile exact_product (2 ^ 63) (after_calls [Record 300, Record 100] LatencyHistogram_new) =
     None"
  by (simp add: percentile_def LatencyHistogram_new_def record_ns_def max_ns_def count_def
      exact_product_def static_cast_size_t_def)

text \<open>The median of four samples, computed by the model.\<close>

lemma percentile_example:
  "percentile exact_product (1 / 2)
     (after_calls [Record 300, Record 100, Record 200, Record 100] LatencyHistogram_new) = Some 200"
  by (simp add: percentile_def LatencyHistogram_new_def record_ns_def max_ns_def
      exact_product_def static_cast_size_t_def)

end
